theory Spec2Isabelle
  imports Main "HOL-Library.Word"
begin

unbundle bit_operations_syntax

section \<open>Error state (error.h, error.c)\<close>

datatype kvs_error = KVS_SUCCESS | KVS_ERROR_MEMORY | KVS_ERROR_KEY_NOT_FOUND
  | KVS_ERROR_INVALID_PARAM | KVS_ERROR_FILE_IO | KVS_ERROR_CORRUPTION | KVS_ERROR_UNKNOWN

text \<open>
  The process state outside the table: the global last-error code of error.c and the
  outcomes of the coming \<^verbatim>\<open>malloc\<close>/\<^verbatim>\<open>calloc\<close> requests (one boolean per request, in
  order; once the list is used up every request succeeds).
\<close>

record env =
  global_error :: kvs_error
  allocs :: "bool list"

definition kvs_set_error :: "kvs_error \<Rightarrow> env \<Rightarrow> env" where
  "kvs_set_error e s = s\<lparr>global_error := e\<rparr>"

definition kvs_clear_error :: "env \<Rightarrow> env" where
  "kvs_clear_error s = kvs_set_error KVS_SUCCESS s"

definition alloc :: "env \<Rightarrow> bool \<times> env" where
  "alloc s = (case allocs s of [] \<Rightarrow> (True, s) | b # bs \<Rightarrow> (b, s\<lparr>allocs := bs\<rparr>))"

section \<open>The table (hash_table.h, hash_table.c)\<close>

text \<open>
  A \<^verbatim>\<open>char*\<close> value field (\<open>val\<close> below) is \<open>Null\<close>, a pointer to a live string,
  or a pointer whose block has been passed to \<^verbatim>\<open>free\<close> (the pointer itself stays in the
  slot). Every value block is owned by one slot, so no store of addresses is needed. A read
  through a freed pointer is undefined in C; \<open>pointee\<close> returns what the block held when it
  was freed.
\<close>

datatype vptr = Null | Str string | Freed string

record ht_entry =
  key :: "32 word"
  val :: vptr
  occupied :: bool

text \<open>\<^verbatim>\<open>size_t\<close> is 64 bits wide: the counters wrap around modulo \<open>2 ^ 64\<close>.\<close>

record hash_table =
  entries :: "ht_entry list"
  capacity :: "64 word"
  size :: "64 word"
  tombstones :: "64 word"

text \<open>\<^verbatim>\<open>#define DELETED_KEY (-2147483648)\<close>, as a 32-bit two's complement pattern.\<close>

definition DELETED_KEY :: "32 word" where
  "DELETED_KEY = 0x80000000"

text \<open>The bytes of an \<^verbatim>\<open>int\<close> in memory order (little-endian host).\<close>

definition key_bytes :: "32 word \<Rightarrow> 8 word list" where
  "key_bytes k = map (\<lambda>i. ucast (drop_bit (8 * i) k)) [0, 1, 2, 3]"

definition hash_key :: "32 word \<Rightarrow> nat" where
  "hash_key k =
     unat (fold (\<lambda>b h. (h XOR ucast b) * 16777619) (key_bytes k) (2166136261 :: 32 word))"

text \<open>
  The \<^verbatim>\<open>do ... while (index != original_index)\<close> loop of \<^verbatim>\<open>find_slot\<close>. \<open>None\<close> stands for
  \<^verbatim>\<open>SIZE_MAX\<close>, both as result and as value of \<^verbatim>\<open>first_tombstone\<close>. The test for capacity
  zero is the one \<^verbatim>\<open>find_slot\<close> makes before the loop, repeated here so that the
  recursion is total.
\<close>

lemma probe_measure:
  fixes cap h index :: nat
  assumes "0 < cap" and "(index + 1) mod cap \<noteq> h mod cap"
  shows "(h mod cap + cap - 1 - ((index + 1) mod cap) mod cap) mod cap
       < (h mod cap + cap - 1 - index mod cap) mod cap"
proof -
  define o' where "o' = h mod cap"
  define x where "x = index mod cap"
  have o: "o' < cap" and x: "x < cap" using assms(1) by (simp_all add: o'_def x_def)
  have nx: "(index + 1) mod cap = (x + 1) mod cap"
    by (simp add: x_def mod_simps)
  have ne: "(x + 1) mod cap \<noteq> o'" using assms(2) nx by (simp add: o'_def)
  show ?thesis
  proof (cases "x + 1 < cap")
    case True
    then have xi: "(x + 1) mod cap = x + 1" by simp
    with ne have neq: "x + 1 \<noteq> o'" by simp
    show ?thesis
    proof (cases "x < o'")
      case True
      with neq have "x + 2 \<le> o'" by simp
      then have "(o' + cap - 1 - (x + 1)) mod cap = o' - 2 - x"
        and "(o' + cap - 1 - x) mod cap = o' - 1 - x"
        using o x by (simp_all add: mod_if)
      then show ?thesis using \<open>x + 2 \<le> o'\<close> unfolding nx xi o'_def[symmetric] x_def[symmetric]
        by simp
    next
      case False
      then have "(o' + cap - 1 - (x + 1)) mod cap = o' + cap - 2 - x"
        and "(o' + cap - 1 - x) mod cap = o' + cap - 1 - x"
        using o x True by (simp_all add: mod_if)
      then show ?thesis using True unfolding nx xi o'_def[symmetric] x_def[symmetric]
        by simp
    qed
  next
    case False
    then have xc: "x + 1 = cap" using x by simp
    then have xi: "(x + 1) mod cap = 0" by simp
    with ne have "0 < o'" by simp
    then have "(o' + cap - 1 - 0) mod cap = o' - 1"
      and "(o' + cap - 1 - x) mod cap = o'"
      using o xc by (simp_all add: mod_if)
    then show ?thesis using \<open>0 < o'\<close> unfolding nx xi o'_def[symmetric] x_def[symmetric]
      by simp
  qed
qed

lemma probe_measure_Suc:
  fixes cap h index :: nat
  assumes "0 < cap" and "Suc index mod cap \<noteq> h mod cap"
  shows "(h mod cap + cap - Suc (Suc index mod cap)) mod cap
       < (h mod cap + cap - Suc (index mod cap)) mod cap"
  using probe_measure [of cap index h] assms by simp

function probe :: "hash_table \<Rightarrow> 32 word \<Rightarrow> bool \<Rightarrow> nat option \<Rightarrow> nat \<Rightarrow> nat option" where
  "probe t k for_insertion first_tombstone index =
     (let cap = unat (capacity t);
          original_index = hash_key k mod cap;
          entry = entries t ! index
      in if cap = 0 then None
         else if \<not> occupied entry then
           (if for_insertion \<and> first_tombstone \<noteq> None then first_tombstone else Some index)
         else if key entry \<noteq> DELETED_KEY \<and> key entry = k then Some index
         else
           (let first_tombstone' =
                  (if key entry = DELETED_KEY \<and> for_insertion \<and> first_tombstone = None
                   then Some index else first_tombstone);
                index' = (index + 1) mod cap
            in if index' \<noteq> original_index
               then probe t k for_insertion first_tombstone' index'
               else if for_insertion \<and> first_tombstone' \<noteq> None then first_tombstone' else None))"
  by pat_completeness auto
termination
  by (relation "measure (\<lambda>(t, k, ins, ft, index).
           (hash_key k mod unat (capacity t) + unat (capacity t) - 1 - index mod unat (capacity t))
             mod unat (capacity t))")
     (simp_all add: probe_measure_Suc)

declare probe.simps [simp del]

definition find_slot :: "hash_table \<Rightarrow> 32 word \<Rightarrow> bool \<Rightarrow> nat option" where
  "find_slot t k for_insertion =
     (if capacity t = 0 then None
      else probe t k for_insertion None (hash_key k mod unat (capacity t)))"

text \<open>A slot of a \<^verbatim>\<open>calloc\<close>ed array: all bytes zero.\<close>

definition empty_entry :: ht_entry where
  "empty_entry = \<lparr>key = 0, val = Null, occupied = False\<rparr>"

text \<open>
  \<^verbatim>\<open>(double)(size + tombstones) / capacity >= 0.75\<close>. The sum wraps in \<^verbatim>\<open>size_t\<close>. The
  comparison is written over the naturals, which is what the floating-point test computes
  for every capacity below \<open>2 ^ 52\<close>; a zero capacity divides to NaN (zero sum, test false)
  or to infinity (test true).
\<close>

definition load_factor_reached :: "hash_table \<Rightarrow> bool" where
  "load_factor_reached t =
     (if capacity t = 0 then size t + tombstones t \<noteq> 0
      else 3 * unat (capacity t) \<le> 4 * unat (size t + tombstones t))"

text \<open>
  Lines 191 to 217 of \<^verbatim>\<open>ht_set\<close>: find the slot, copy the value, store. The body ends
  without a \<^verbatim>\<open>return\<close> statement, so the value its caller reads is not fixed by the source:
  it is the parameter \<open>eob\<close> of the model (the tests of the repository need it to be true).
\<close>

definition ht_set_store ::
  "bool \<Rightarrow> hash_table \<Rightarrow> env \<Rightarrow> 32 word \<Rightarrow> string \<Rightarrow> bool \<times> hash_table \<times> env" where
  "ht_set_store eob t s k v =
     (case find_slot t k True of
        None \<Rightarrow> (False, t, kvs_set_error KVS_ERROR_MEMORY s)
      | Some index \<Rightarrow>
          (let entry = entries t ! index; (ok, s1) = alloc s
           in if \<not> ok then (False, t, kvs_set_error KVS_ERROR_MEMORY s1)
              else
                (eob,
                 t\<lparr>entries := (entries t)[index := \<lparr>key = k, val = Str v, occupied = True\<rparr>],
                   tombstones := (if occupied entry \<and> key entry = k \<and> key entry \<noteq> DELETED_KEY
                                  then tombstones t - 1 else tombstones t),
                   size := size t + 1\<rparr>,
                 s1)))"

fun pointee :: "vptr \<Rightarrow> string option" where
  "pointee Null = None"
| "pointee (Str v) = Some v"
| "pointee (Freed v) = Some v"

fun free :: "vptr \<Rightarrow> vptr" where
  "free Null = Null"
| "free (Str v) = Freed v"
| "free (Freed v) = Freed v"

text \<open>
  \<^verbatim>\<open>ht_set\<close> and \<^verbatim>\<open>resize_table\<close> call each other; \<open>reinsert\<close> is the \<^verbatim>\<open>for\<close> loop of
  \<^verbatim>\<open>resize_table\<close> over the old array, which frees each old value after its slot has been
  handled. The table pointer is taken to be valid; an absent value is \<open>None\<close>.
\<close>

function ht_set ::
    "bool \<Rightarrow> hash_table \<Rightarrow> env \<Rightarrow> 32 word \<Rightarrow> string option \<Rightarrow> bool \<times> hash_table \<times> env"
  and resize_table ::
    "bool \<Rightarrow> hash_table \<Rightarrow> env \<Rightarrow> 64 word \<Rightarrow> bool \<times> hash_table \<times> env"
  and reinsert ::
    "bool \<Rightarrow> ht_entry list \<Rightarrow> 64 word \<Rightarrow> nat \<Rightarrow> hash_table \<Rightarrow> env \<Rightarrow> bool \<times> hash_table \<times> env"
where
  "ht_set eob t s k value =
     (case value of
        None \<Rightarrow> (False, t, kvs_set_error KVS_ERROR_INVALID_PARAM s)
      | Some v \<Rightarrow>
          if k = DELETED_KEY then (False, t, kvs_set_error KVS_ERROR_INVALID_PARAM s)
          else if load_factor_reached t then
            (case resize_table eob t s (capacity t * 2) of
               (ok, t1, s1) \<Rightarrow> if \<not> ok then (False, t1, s1) else ht_set_store eob t1 s1 k v)
          else ht_set_store eob t s k v)"
| "resize_table eob t s new_capacity =
     (if new_capacity \<le> capacity t then (False, t, s)
      else
        (case alloc s of
           (ok, s1) \<Rightarrow>
             if \<not> ok then (False, t, kvs_set_error KVS_ERROR_MEMORY s1)
             else reinsert eob (entries t) (capacity t) 0
                    (t\<lparr>entries := replicate (unat new_capacity) empty_entry,
                       capacity := new_capacity, size := 0, tombstones := 0\<rparr>) s1))"
| "reinsert eob old_entries old_capacity i t s =
     (if i < unat old_capacity then
        (let e = old_entries ! i;
             old_entries' = old_entries[i := e\<lparr>val := free (val e)\<rparr>]
         in if occupied e \<and> key e \<noteq> DELETED_KEY then
              (case ht_set eob t s (key e) (pointee (val e)) of
                 (ok, t1, s1) \<Rightarrow>
                   if \<not> ok then (False, t1\<lparr>entries := old_entries, capacity := old_capacity\<rparr>, s1)
                   else reinsert eob old_entries' old_capacity (i + 1) t1 s1)
            else reinsert eob old_entries' old_capacity (i + 1) t s)
      else (True, t, s))"
  by pat_completeness auto

lemma ht_set_store_capacity:
  "capacity (fst (snd (ht_set_store eob t s k v))) = capacity t"
  by (simp add: ht_set_store_def Let_def split: option.split prod.split)

text \<open>
  The recursion ends because every nested resize strictly raises the capacity, which is
  below \<open>2 ^ 64\<close>. That a successful \<^verbatim>\<open>ht_set\<close> never lowers the capacity is needed for the
  loop and is shown first on the domain of the functions.
\<close>

lemma capacity_grows_partial:
  "ht_set_resize_table_reinsert_dom (Inl (eob, t, s, k, vo)) \<Longrightarrow>
     fst (ht_set eob t s k vo) \<longrightarrow> capacity t \<le> capacity (fst (snd (ht_set eob t s k vo)))"
  "ht_set_resize_table_reinsert_dom (Inr (Inl (eob, t, s, nc))) \<Longrightarrow>
     fst (resize_table eob t s nc) \<longrightarrow> capacity t \<le> capacity (fst (snd (resize_table eob t s nc)))"
  "ht_set_resize_table_reinsert_dom (Inr (Inr (eob, old, oc, i, t, s))) \<Longrightarrow>
     fst (reinsert eob old oc i t s) \<longrightarrow> capacity t \<le> capacity (fst (snd (reinsert eob old oc i t s)))"
proof (induct rule: ht_set_resize_table_reinsert.pinduct)
  case (1 eob t s k vo)
  then show ?case
    by (auto simp: ht_set.psimps ht_set_store_capacity split: option.split prod.split)
next
  case (2 eob t s nc)
  then show ?case
    by (fastforce simp: resize_table.psimps split: prod.split)
next
  case (3 eob old oc i t s)
  then show ?case
    by (auto simp: reinsert.psimps Let_def split: prod.split) (meson order_trans)
qed

termination ht_set
proof (relation "inv_image (less_than <*lex*> less_than <*lex*> less_than)
     (\<lambda>x. case x of
         Inl (eob, t, s, k, v) \<Rightarrow> (2 ^ 64 - unat (capacity t), 1::nat, 0::nat)
       | Inr (Inl (eob, t, s, nc)) \<Rightarrow> (2 ^ 64 - unat (capacity t), 0, 0)
       | Inr (Inr (eob, old, oc, i, t, s)) \<Rightarrow> (2 ^ 64 - unat (capacity t), 2, unat oc - i))",
    goal_cases)
  case 1
  show ?case by (intro wf_inv_image wf_lex_prod wf_less_than)
next
  case 2
  then show ?case by simp
next
  case (3 eob t s nc ok s1)
  have "unat nc < 2 ^ 64" using unsigned_less [of nc] by simp
  moreover have "unat (capacity t) < unat nc" using 3(1) by (simp add: word_le_nat_alt)
  ultimately show ?case by simp
next
  case 4
  then show ?case by simp
next
  case (5 eob old oc i t s e old' ok y t1 s1)
  have "capacity t \<le> capacity t1"
    using 5 capacity_grows_partial(1) [of eob t s "key e" "pointee (val e)"]
    by (metis fst_conv snd_conv)
  then have "unat (capacity t) \<le> unat (capacity t1)"
    by (simp add: word_le_nat_alt)
  with 5(1) show ?case by auto
next
  case 6
  then show ?case by simp
qed

declare ht_set.simps [simp del] resize_table.simps [simp del] reinsert.simps [simp del]

text \<open>\<^verbatim>\<open>ht_create\<close>: two allocations, the table structure and the zeroed slot array.\<close>

definition DEFAULT_CAPACITY :: "64 word" where
  "DEFAULT_CAPACITY = 16"

definition new_table :: "64 word \<Rightarrow> hash_table" where
  "new_table cap =
     \<lparr>entries = replicate (unat cap) empty_entry, capacity = cap, size = 0, tombstones = 0\<rparr>"

definition ht_create :: "64 word \<Rightarrow> env \<Rightarrow> hash_table option \<times> env" where
  "ht_create initial_capacity s =
     (let cap = (if initial_capacity = 0 then DEFAULT_CAPACITY else initial_capacity);
          (ok1, s1) = alloc s
      in if \<not> ok1 then (None, kvs_set_error KVS_ERROR_MEMORY s1)
         else
           (let (ok2, s2) = alloc s1
            in if \<not> ok2 then (None, kvs_set_error KVS_ERROR_MEMORY s2)
               else (Some (new_table cap), kvs_clear_error s2)))"

text \<open>\<^verbatim>\<open>ht_get\<close> returns the slot's value pointer, \<open>Null\<close> on every failure.\<close>

definition ht_get :: "hash_table \<Rightarrow> env \<Rightarrow> 32 word \<Rightarrow> vptr \<times> env" where
  "ht_get t s k =
     (if k = DELETED_KEY then (Null, kvs_set_error KVS_ERROR_INVALID_PARAM s)
      else
        (case find_slot t k False of
           None \<Rightarrow> (Null, kvs_set_error KVS_ERROR_KEY_NOT_FOUND s)
         | Some index \<Rightarrow>
             (let entry = entries t ! index
              in if \<not> occupied entry \<or> key entry \<noteq> k \<or> key entry = DELETED_KEY
                 then (Null, kvs_set_error KVS_ERROR_KEY_NOT_FOUND s)
                 else (val entry, kvs_clear_error s))))"

definition ht_delete :: "hash_table \<Rightarrow> env \<Rightarrow> 32 word \<Rightarrow> bool \<times> hash_table \<times> env" where
  "ht_delete t s k =
     (if k = DELETED_KEY then (False, t, kvs_set_error KVS_ERROR_INVALID_PARAM s)
      else
        (case find_slot t k False of
           None \<Rightarrow> (False, t, kvs_set_error KVS_ERROR_KEY_NOT_FOUND s)
         | Some index \<Rightarrow>
             (let entry = entries t ! index
              in if \<not> occupied entry \<or> key entry \<noteq> k \<or> key entry = DELETED_KEY
                 then (False, t, kvs_set_error KVS_ERROR_KEY_NOT_FOUND s)
                 else
                   (True,
                    t\<lparr>entries := (entries t)[index := entry\<lparr>val := Null, key := DELETED_KEY\<rparr>],
                      size := size t - 1,
                      tombstones := tombstones t + 1\<rparr>,
                    kvs_clear_error s))))"

definition ht_size :: "hash_table \<Rightarrow> 64 word" where
  "ht_size t = size t"

definition ht_capacity :: "hash_table \<Rightarrow> 64 word" where
  "ht_capacity t = capacity t"

text \<open>
  \<^verbatim>\<open>ht_iterator_next\<close> from cursor \<open>index\<close>: the next live entry and the advanced cursor, or
  \<open>None\<close> when the scan reaches the capacity.
\<close>

function ht_iterator_next :: "hash_table \<Rightarrow> nat \<Rightarrow> (32 word \<times> vptr \<times> nat) option" where
  "ht_iterator_next t index =
     (if index < unat (capacity t) then
        (let entry = entries t ! index
         in if occupied entry \<and> key entry \<noteq> DELETED_KEY
            then Some (key entry, val entry, index + 1)
            else ht_iterator_next t (index + 1))
      else None)"
  by pat_completeness auto
termination
  by (relation "measure (\<lambda>(t, index). unat (capacity t) - index)") simp_all

declare ht_iterator_next.simps [simp del]

section \<open>The codec (persistence.h, persistence.c)\<close>

text \<open>
  The file is a list of bytes (\<^verbatim>\<open>char\<close>s). The model starts after \<^verbatim>\<open>fopen\<close> has succeeded:
  a write to the sink always succeeds, and a read fails exactly when fewer bytes remain
  than were asked for. A \<^verbatim>\<open>uint32_t\<close> or \<^verbatim>\<open>int\<close> is written as its four bytes in memory
  order (little-endian host).
\<close>

definition le32 :: "32 word \<Rightarrow> string" where
  "le32 w =
     (let n = unat w
      in [char_of n, char_of (n div 256), char_of (n div 65536), char_of (n div 16777216)])"

definition u32_of :: "string \<Rightarrow> 32 word" where
  "u32_of bs = word_of_nat (foldr (\<lambda>b n. of_char b + 256 * n) bs 0)"

definition KVS_MAGIC_NUMBER :: "32 word" where
  "KVS_MAGIC_NUMBER = 0x4B565301"

definition KVS_FILE_VERSION :: "32 word" where
  "KVS_FILE_VERSION = 1"

text \<open>The characters a \<^verbatim>\<open>char*\<close> is read as: those before the first NUL byte.\<close>

definition c_str :: "string \<Rightarrow> string" where
  "c_str bs = takeWhile (\<lambda>c. c \<noteq> CHR 0x00) bs"

fun chars :: "vptr \<Rightarrow> string" where
  "chars Null = []"
| "chars (Str v) = v"
| "chars (Freed v) = v"

text \<open>
  The \<^verbatim>\<open>while (ht_iterator_next(...))\<close> loop of \<^verbatim>\<open>kvs_save_to_file\<close>: key, value length
  (\<^verbatim>\<open>strlen\<close> cut to 32 bits) and that many value bytes per live entry.
\<close>

lemma ht_iterator_next_index:
  "ht_iterator_next t index = Some (k, v, index') \<Longrightarrow> index < index' \<and> index' \<le> unat (capacity t)"
proof (induction t index rule: ht_iterator_next.induct)
  case (1 t index)
  show ?case
  proof (cases "occupied (entries t ! index) \<and> key (entries t ! index) \<noteq> DELETED_KEY")
    case True
    with "1.prems" show ?thesis
      by (subst (asm) ht_iterator_next.simps) (auto simp: Let_def split: if_splits)
  next
    case False
    with "1.prems" have "index < unat (capacity t)"
      and "ht_iterator_next t (index + 1) = Some (k, v, index')"
      by (subst (asm) ht_iterator_next.simps, auto simp: Let_def split: if_splits)+
    with "1.IH" False show ?thesis by fastforce
  qed
qed

function save_entries :: "hash_table \<Rightarrow> nat \<Rightarrow> string \<Rightarrow> string" where
  "save_entries t index file =
     (case ht_iterator_next t index of
        None \<Rightarrow> file
      | Some (k, v, index') \<Rightarrow>
          (let value_len = (word_of_nat (length (chars v)) :: 32 word)
           in save_entries t index'
                (file @ le32 k @ le32 value_len @ take (unat value_len) (chars v))))"
  by pat_completeness auto
termination
  by (relation "measure (\<lambda>(t, index, file). unat (capacity t) - index)")
     (auto dest!: ht_iterator_next_index)

declare save_entries.simps [simp del]

text \<open>The sixteen bytes of a \<^verbatim>\<open>kvs_file_header_t\<close> with the given entry count.\<close>

definition kvs_header :: "32 word \<Rightarrow> string" where
  "kvs_header entry_count =
     le32 KVS_MAGIC_NUMBER @ le32 KVS_FILE_VERSION @ le32 entry_count @ le32 0"

definition kvs_save_to_file :: "hash_table \<Rightarrow> env \<Rightarrow> bool \<times> string \<times> env" where
  "kvs_save_to_file t s =
     (let header = kvs_header (ucast (ht_size t))
      in (True, save_entries t 0 header, kvs_clear_error s))"

text \<open>
  The \<^verbatim>\<open>for\<close> loop of \<^verbatim>\<open>kvs_load_from_file\<close> over \<open>n\<close> records still to read, \<open>file\<close> being
  the bytes not yet consumed.
\<close>

fun load_entries ::
  "bool \<Rightarrow> nat \<Rightarrow> hash_table \<Rightarrow> env \<Rightarrow> string \<Rightarrow> bool \<times> hash_table \<times> env" where
  "load_entries eob 0 t s file = (True, t, kvs_clear_error s)"
| "load_entries eob (Suc n) t s file =
     (if length file < 4 then (False, t, kvs_set_error KVS_ERROR_FILE_IO s)
      else
        (let k = u32_of (take 4 file); file1 = drop 4 file
         in if length file1 < 4 then (False, t, kvs_set_error KVS_ERROR_FILE_IO s)
            else
              (let value_len = u32_of (take 4 file1); file2 = drop 4 file1
               in if 100000 < value_len then (False, t, kvs_set_error KVS_ERROR_CORRUPTION s)
                  else
                    (case alloc s of
                       (ok, s1) \<Rightarrow>
                         if \<not> ok then (False, t, kvs_set_error KVS_ERROR_MEMORY s1)
                         else if length file2 < unat value_len
                         then (False, t, kvs_set_error KVS_ERROR_FILE_IO s1)
                         else
                           (case ht_set eob t s1 k (Some (c_str (take (unat value_len) file2))) of
                              (ok', t1, s2) \<Rightarrow>
                                if \<not> ok' then (False, t1, s2)
                                else load_entries eob n t1 s2 (drop (unat value_len) file2))))))"

definition kvs_load_from_file ::
  "bool \<Rightarrow> hash_table \<Rightarrow> env \<Rightarrow> string \<Rightarrow> bool \<times> hash_table \<times> env" where
  "kvs_load_from_file eob t s file =
     (if length file < 16 then (False, t, kvs_set_error KVS_ERROR_FILE_IO s)
      else
        (let magic = u32_of (take 4 file);
             version = u32_of (take 4 (drop 4 file));
             entry_count = u32_of (take 4 (drop 8 file))
         in if magic \<noteq> KVS_MAGIC_NUMBER then (False, t, kvs_set_error KVS_ERROR_CORRUPTION s)
            else if version \<noteq> KVS_FILE_VERSION
            then (False, t, kvs_set_error KVS_ERROR_CORRUPTION s)
            else load_entries eob (unat entry_count) t s (drop 16 file)))"

text \<open>
  A record of the file format, for a key and the bytes of its value, and the record
  \<^verbatim>\<open>kvs_save_to_file\<close> writes for a slot.
\<close>

definition encode_record :: "32 word \<times> string \<Rightarrow> string" where
  "encode_record r = le32 (fst r) @ le32 (word_of_nat (length (snd r))) @ snd r"

definition save_record :: "ht_entry \<Rightarrow> string" where
  "save_record e =
     le32 (key e) @ le32 (word_of_nat (length (chars (val e))))
       @ take (unat (word_of_nat (length (chars (val e))) :: 32 word)) (chars (val e))"

section \<open>Sample states\<close>

text \<open>A process state with no error recorded and no allocation failure ahead.\<close>

definition env0 :: env where
  "env0 = \<lparr>global_error = KVS_SUCCESS, allocs = []\<rparr>"

text \<open>
  Keys 10 and 42 share the home slot 15 of a table of 16 slots: \<open>pair_sample\<close> holds both
  (42 one step further, in slot 0), and \<open>tomb_sample\<close> is \<open>pair_sample\<close> after key 10 has been
  deleted, so that a tombstone lies between the home slot of 42 and its slot.
\<close>

definition pair_sample :: hash_table where
  "pair_sample =
     fst (snd (ht_set True (fst (snd (ht_set True (new_table 16) env0 10 (Some ''ten''))))
                 env0 42 (Some ''answer'')))"

definition tomb_sample :: hash_table where
  "tomb_sample = fst (snd (ht_delete pair_sample env0 10))"

text \<open>The table of the persistence test: three keys set in a fresh table of 16 slots.\<close>

definition three_sample :: "string \<Rightarrow> string \<Rightarrow> string \<Rightarrow> hash_table" where
  "three_sample v1 v2 v3 =
     fst (snd (ht_set True
       (fst (snd (ht_set True
          (fst (snd (ht_set True (new_table 16) env0 100 (Some v1))))
          env0 200 (Some v2))))
       env0 300 (Some v3)))"

text \<open>
  The same three entries with key 100 set twice: the slots are those of \<open>three_sample\<close> for
  the values of the test, the counters are not.
\<close>

definition again_sample :: hash_table where
  "again_sample =
     fst (snd (ht_set True
       (fst (snd (ht_set True
          (fst (snd (ht_set True
             (fst (snd (ht_set True (new_table 16) env0 100 (Some ''one hundred''))))
             env0 100 (Some ''one hundred''))))
          env0 200 (Some ''two hundred''))))
       env0 300 (Some ''three hundred'')))"

text \<open>
  Key 42 set twice in a fresh table of 16 slots (\<open>once42\<close>, \<open>twice42\<close>); key 10 set, deleted
  and set again (\<open>reuse_sample\<close>); a table of 4 slots filled with the keys 1, 2, 3
  (\<open>two4\<close>, \<open>three4\<close>) and then key 4, which makes it grow to 8 slots (\<open>four8\<close>); a process
  state whose third allocation fails.
\<close>

definition once42 :: hash_table where
  "once42 = fst (snd (ht_set True (new_table 16) env0 42 (Some ''hello world'')))"

definition twice42 :: hash_table where
  "twice42 = fst (snd (ht_set True once42 env0 42 (Some ''goodbye world'')))"

definition reuse_sample :: hash_table where
  "reuse_sample =
     fst (snd (ht_set True
       (fst (snd (ht_delete (fst (snd (ht_set True (new_table 16) env0 10 (Some ''ten''))))
          env0 10)))
       env0 10 (Some ''ten again'')))"

definition two4 :: hash_table where
  "two4 = fst (snd (ht_set True (fst (snd (ht_set True (new_table 4) env0 1 (Some ''a''))))
                      env0 2 (Some ''b'')))"

definition three4 :: hash_table where
  "three4 = fst (snd (ht_set True two4 env0 3 (Some ''c'')))"

definition four8 :: hash_table where
  "four8 = fst (snd (ht_set True three4 env0 4 (Some ''d'')))"

definition env_fail3 :: env where
  "env_fail3 = \<lparr>global_error = KVS_SUCCESS, allocs = [True, True, False]\<rparr>"

section \<open>Probe sequences and the table invariant\<close>

text \<open>
  The notions the proofs are stated in. \<open>slot_at t k d\<close> is the slot the probe for \<open>k\<close>
  looks at after \<open>d\<close> steps; a slot is \<open>live\<close> when it is occupied by a real key. The
  invariant \<open>ht_inv\<close> of a table: the slot array has the length the capacity field says,
  which is not zero (\<open>wf\<close>); every live key is reached from its home slot through
  occupied slots only (\<open>chain\<close>); no key is live in two slots (\<open>uniq\<close>). The two counters
  are not part of it.
\<close>

definition live :: "ht_entry \<Rightarrow> bool" where
  "live e = (occupied e \<and> key e \<noteq> DELETED_KEY)"

definition slot_at :: "hash_table \<Rightarrow> 32 word \<Rightarrow> nat \<Rightarrow> nat" where
  "slot_at t k d = (hash_key k + d) mod unat (capacity t)"

definition entry_at :: "hash_table \<Rightarrow> 32 word \<Rightarrow> nat \<Rightarrow> ht_entry" where
  "entry_at t k d = entries t ! slot_at t k d"

definition hit :: "32 word \<Rightarrow> ht_entry \<Rightarrow> bool" where
  "hit k e = (live e \<and> key e = k)"

definition clear_to :: "hash_table \<Rightarrow> 32 word \<Rightarrow> nat \<Rightarrow> bool" where
  "clear_to t k n = (\<forall>d<n. occupied (entry_at t k d) \<and> \<not> hit k (entry_at t k d))"

definition lookup_stop :: "hash_table \<Rightarrow> 32 word \<Rightarrow> nat \<Rightarrow> bool" where
  "lookup_stop t k i =
     (\<exists>d<unat (capacity t). i = slot_at t k d \<and> clear_to t k d
        \<and> (\<not> occupied (entry_at t k d) \<or> hit k (entry_at t k d)))"

definition insert_stop :: "hash_table \<Rightarrow> 32 word \<Rightarrow> nat \<Rightarrow> bool" where
  "insert_stop t k i =
     (\<exists>d<unat (capacity t). i = slot_at t k d \<and> clear_to t k d
        \<and> (hit k (entry_at t k d)
           \<or> (\<not> live (entry_at t k d)
              \<and> (\<exists>d2. d \<le> d2 \<and> d2 \<le> unat (capacity t) \<and> clear_to t k d2
                     \<and> (d2 < unat (capacity t) \<longrightarrow> \<not> occupied (entry_at t k d2))))))"

definition ft_ok :: "hash_table \<Rightarrow> 32 word \<Rightarrow> nat \<Rightarrow> nat option \<Rightarrow> bool" where
  "ft_ok t k d ft =
     (case ft of
        None \<Rightarrow> (\<forall>d'<d. live (entry_at t k d'))
      | Some i \<Rightarrow> (\<exists>dt<d. i = slot_at t k dt \<and> \<not> live (entry_at t k dt)))"

definition wf :: "hash_table \<Rightarrow> bool" where
  "wf t = (length (entries t) = unat (capacity t) \<and> 0 < unat (capacity t))"

definition chain :: "hash_table \<Rightarrow> bool" where
  "chain t =
     (\<forall>i<unat (capacity t). live (entries t ! i) \<longrightarrow>
        (\<exists>d<unat (capacity t). i = slot_at t (key (entries t ! i)) d
           \<and> (\<forall>d'<d. occupied (entry_at t (key (entries t ! i)) d'))))"

definition uniq :: "hash_table \<Rightarrow> bool" where
  "uniq t =
     (\<forall>i<unat (capacity t). \<forall>j<unat (capacity t).
        live (entries t ! i) \<longrightarrow> live (entries t ! j) \<longrightarrow>
        key (entries t ! i) = key (entries t ! j) \<longrightarrow> i = j)"

definition ht_inv :: "hash_table \<Rightarrow> bool" where
  "ht_inv t = (wf t \<and> chain t \<and> uniq t)"

definition absent :: "hash_table \<Rightarrow> 32 word \<Rightarrow> bool" where
  "absent t k = (\<forall>i<unat (capacity t). \<not> hit k (entries t ! i))"

definition mk_table :: "ht_entry list \<Rightarrow> 64 word \<Rightarrow> hash_table" where
  "mk_table es c = \<lparr>entries = es, capacity = c, size = 0, tombstones = 0\<rparr>"

text \<open>
  The tables a caller can build: created by \<^verbatim>\<open>ht_create\<close>, then changed by \<^verbatim>\<open>ht_set\<close> and
  \<^verbatim>\<open>ht_delete\<close> only, whatever they return and whatever the allocator does.
\<close>

inductive reachable :: "hash_table \<Rightarrow> bool" where
  created: "ht_create c s = (Some t, s') \<Longrightarrow> reachable t"
| after_set: "reachable t \<Longrightarrow> ht_set eob t s k vo = (b, t', s') \<Longrightarrow> reachable t'"
| after_delete: "reachable t \<Longrightarrow> ht_delete t s k = (b, t', s') \<Longrightarrow> reachable t'"

text \<open>A sequence of calls made one after the other, the process state passed along.\<close>

datatype op = Set "32 word" "string option" | Delete "32 word"

fun apply_op :: "bool \<Rightarrow> hash_table \<times> env \<Rightarrow> op \<Rightarrow> hash_table \<times> env" where
  "apply_op eob (t, s) (Set k vo) = snd (ht_set eob t s k vo)"
| "apply_op eob (t, s) (Delete k) = snd (ht_delete t s k)"

definition run :: "bool \<Rightarrow> op list \<Rightarrow> hash_table \<times> env \<Rightarrow> hash_table \<times> env" where
  "run eob ops ts = foldl (apply_op eob) ts ops"

fun sets_key :: "32 word \<Rightarrow> op \<Rightarrow> bool" where
  "sets_key k (Set k' vo) = (k' = k)"
| "sets_key k (Delete k') = False"

text \<open>
  Counting slots: live slots and tombstones of a slot array, occupied slots of a table. A
  table under reconstruction by \<^verbatim>\<open>resize_table\<close> satisfies \<open>fresh_inv\<close>: it has no
  tombstone, and the sum of its two counters is the number of its occupied slots.
\<close>

definition live_count :: "ht_entry list \<Rightarrow> nat" where
  "live_count es = length (filter live es)"

definition tomb_count :: "ht_entry list \<Rightarrow> nat" where
  "tomb_count es = length (filter (\<lambda>e. occupied e \<and> key e = DELETED_KEY) es)"

definition occ_count :: "hash_table \<Rightarrow> nat" where
  "occ_count t = length (filter occupied (entries t))"

definition fresh_inv :: "hash_table \<Rightarrow> bool" where
  "fresh_inv t =
     (ht_inv t \<and> (\<forall>j<unat (capacity t). occupied (entries t ! j) \<longrightarrow> live (entries t ! j))
      \<and> unat (size t + tombstones t) = occ_count t)"

text \<open>
  The pairs the iterator yields, in slot order, and what \<^verbatim>\<open>ht_set\<close> makes of a table when
  the home slot of the key is empty and the table does not grow.
\<close>

definition ht_contents :: "hash_table \<Rightarrow> (32 word \<times> vptr) list" where
  "ht_contents t = map (\<lambda>e. (key e, val e)) (filter live (entries t))"

definition place :: "hash_table \<Rightarrow> 32 word \<Rightarrow> string \<Rightarrow> hash_table" where
  "place t k v =
     t\<lparr>entries := (entries t)[hash_key k mod unat (capacity t)
                     := \<lparr>key = k, val = Str v, occupied = True\<rparr>],
       size := size t + 1\<rparr>"

section \<open>Little-endian words\<close>

lemma le32_arith:
  fixes n :: nat
  assumes "n < 4294967296"
  shows "n mod 256 + 256 * (n div 256 mod 256 + 256 * (n div 65536 mod 256 + 256 * (n div 16777216 mod 256))) = n"
proof -
  define q1 where "q1 = n div 256"
  define q2 where "q2 = q1 div 256"
  define q3 where "q3 = q2 div 256"
  have e2: "n div 65536 = q2" unfolding q2_def q1_def by (simp add: div_mult2_eq [symmetric])
  have e3: "n div 16777216 = q3" unfolding q3_def q2_def q1_def by (simp add: div_mult2_eq [symmetric])
  have "q3 < 256" using assms unfolding e3 [symmetric] by simp
  then have "q3 mod 256 = q3" by simp
  moreover have "q2 mod 256 + 256 * q3 = q2" unfolding q3_def by simp
  moreover have "q1 mod 256 + 256 * q2 = q1" unfolding q2_def by simp
  moreover have "n mod 256 + 256 * q1 = n" unfolding q1_def by simp
  ultimately show ?thesis unfolding e2 e3 q1_def [symmetric] by simp
qed

lemma length_le32 [simp]: "length (le32 w) = 4"
  by (simp add: le32_def Let_def)

lemma u32_of_le32 [simp]: "u32_of (le32 w) = w"
proof -
  have b: "unat w < 4294967296" using unsigned_less [of w] by simp
  then have "unat w div 16777216 mod 256 = unat w div 16777216" by simp
  with le32_arith [OF b]
  have "foldr (\<lambda>b n. of_char b + 256 * n) (le32 w) 0 = unat w"
    by (simp add: le32_def Let_def)
  then show ?thesis unfolding u32_of_def by simp
qed

section \<open>What the probe loop returns\<close>

lemma mod_add_left_cancel_nat:
  "(h + a) mod c = (h + b) mod c \<longleftrightarrow> a mod c = b mod (c::nat)"
  by (simp add: mod_eq_iff_dvd_symdiff_nat)

lemma slot_at_less: "0 < unat (capacity t) \<Longrightarrow> slot_at t k d < unat (capacity t)"
  by (simp add: slot_at_def)

lemma slot_at_0: "slot_at t k 0 = hash_key k mod unat (capacity t)"
  by (simp add: slot_at_def)

lemma slot_at_Suc: "Suc (slot_at t k d) mod unat (capacity t) = slot_at t k (Suc d)"
  by (simp add: slot_at_def mod_simps)

lemma slot_at_wrap:
  assumes "0 < unat (capacity t)" "d < unat (capacity t)"
  shows "slot_at t k (Suc d) = hash_key k mod unat (capacity t) \<longleftrightarrow> Suc d = unat (capacity t)"
proof -
  define c where "c = unat (capacity t)"
  define h where "h = hash_key k"
  have "(h + Suc d) mod c = h mod c \<longleftrightarrow> Suc d mod c = 0"
  proof -
    have "(h + Suc d) mod c = (h + 0) mod c \<longleftrightarrow> Suc d mod c = 0 mod c"
      by (rule mod_add_left_cancel_nat)
    then show ?thesis by simp
  qed
  also have "\<dots> \<longleftrightarrow> Suc d = c" using assms by (auto simp: c_def mod_Suc)
  finally show ?thesis by (simp add: slot_at_def c_def h_def)
qed

lemma slot_at_inj:
  assumes "d1 < unat (capacity t)" "d2 < unat (capacity t)" "slot_at t k d1 = slot_at t k d2"
  shows "d1 = d2"
  using assms unfolding slot_at_def mod_add_left_cancel_nat by simp

lemma slot_at_surj:
  assumes "i < unat (capacity t)"
  shows "\<exists>d<unat (capacity t). slot_at t k d = i"
proof -
  define c where "c = unat (capacity t)"
  define h where "h = hash_key k mod c"
  have hc: "h < c" using assms by (simp add: h_def c_def)
  let ?d = "(i + c - h) mod c"
  have "?d < c" using assms by (simp add: c_def)
  moreover have "(hash_key k + ?d) mod c = i"
  proof -
    have "(hash_key k + ?d) mod c = (h + (i + c - h)) mod c"
      by (simp add: h_def mod_simps)
    also have "h + (i + c - h) = i + c" using hc by simp
    finally show ?thesis using assms by (simp add: c_def)
  qed
  ultimately show ?thesis unfolding slot_at_def c_def by blast
qed

lemma clear_to_Suc:
  "clear_to t k (Suc d) \<longleftrightarrow>
     clear_to t k d \<and> occupied (entry_at t k d) \<and> \<not> hit k (entry_at t k d)"
  by (auto simp: clear_to_def less_Suc_eq)

lemma clear_to_mono: "clear_to t k n \<Longrightarrow> m \<le> n \<Longrightarrow> clear_to t k m"
  by (simp add: clear_to_def)

lemma probe_step:
  assumes "0 < unat (capacity t)" "d < unat (capacity t)"
  shows "probe t k ins ft (slot_at t k d) =
     (let entry = entry_at t k d
      in if \<not> occupied entry then (if ins \<and> ft \<noteq> None then ft else Some (slot_at t k d))
         else if hit k entry then Some (slot_at t k d)
         else
           (let ft' = (if key entry = DELETED_KEY \<and> ins \<and> ft = None
                       then Some (slot_at t k d) else ft)
            in if Suc d < unat (capacity t) then probe t k ins ft' (slot_at t k (Suc d))
               else if ins then ft' else None))"
proof -
  have w: "slot_at t k (Suc d) \<noteq> hash_key k mod unat (capacity t)
           \<longleftrightarrow> Suc d < unat (capacity t)"
    using slot_at_wrap [OF assms, of k] assms(2) by auto
  show ?thesis
    by (subst probe.simps) (use assms(1) w in \<open>auto simp: Let_def entry_at_def hit_def live_def slot_at_Suc\<close>)
qed

lemma probe_lookup:
  assumes "0 < unat (capacity t)" "d < unat (capacity t)" "clear_to t k d"
  shows "case probe t k False ft (slot_at t k d) of
           None \<Rightarrow> clear_to t k (unat (capacity t))
         | Some i \<Rightarrow> lookup_stop t k i"
  using assms(2,3)
proof (induction "unat (capacity t) - d" arbitrary: d ft)
  case 0
  then show ?case by simp
next
  case (Suc n)
  show ?case
  proof (cases "\<not> occupied (entry_at t k d) \<or> hit k (entry_at t k d)")
    case True
    then have "probe t k False ft (slot_at t k d) = Some (slot_at t k d)"
      using probe_step [OF assms(1) Suc.prems(1), of k False ft] by (auto simp: Let_def)
    moreover have "lookup_stop t k (slot_at t k d)"
      unfolding lookup_stop_def using Suc.prems True by blast
    ultimately show ?thesis by simp
  next
    case False
    then have c: "clear_to t k (Suc d)" using Suc.prems(2) by (simp add: clear_to_Suc)
    show ?thesis
    proof (cases "Suc d < unat (capacity t)")
      case True
      have "probe t k False ft (slot_at t k d) = probe t k False ft (slot_at t k (Suc d))"
        using probe_step [OF assms(1) Suc.prems(1), of k False ft] False True
        by (simp add: Let_def)
      moreover have "n = unat (capacity t) - Suc d" using Suc.hyps(2) by simp
      ultimately show ?thesis using Suc.hyps(1) [of "Suc d" ft] True c by simp
    next
      case F2: False
      then have "Suc d = unat (capacity t)" using Suc.prems(1) by simp
      moreover have "probe t k False ft (slot_at t k d) = None"
        using probe_step [OF assms(1) Suc.prems(1), of k False ft] False F2
        by (simp add: Let_def)
      ultimately show ?thesis using c by simp
    qed
  qed
qed

lemma probe_insert:
  assumes "0 < unat (capacity t)" "d < unat (capacity t)" "clear_to t k d" "ft_ok t k d ft"
  shows "case probe t k True ft (slot_at t k d) of
           None \<Rightarrow> clear_to t k (unat (capacity t))
                    \<and> (\<forall>d'<unat (capacity t). live (entry_at t k d'))
         | Some i \<Rightarrow> insert_stop t k i"
  using assms(2,3,4)
proof (induction "unat (capacity t) - d" arbitrary: d ft)
  case 0
  then show ?case by simp
next
  case (Suc n)
  note step = probe_step [OF assms(1) Suc.prems(1), of k True ft]
  show ?case
  proof (cases "occupied (entry_at t k d)")
    case False
    show ?thesis
    proof (cases ft)
      case None
      then have "probe t k True ft (slot_at t k d) = Some (slot_at t k d)"
        using step False by (simp add: Let_def)
      moreover have "insert_stop t k (slot_at t k d)"
        unfolding insert_stop_def using Suc.prems(1,2) False
        by (intro exI [of _ d]) (auto simp: live_def)
      ultimately show ?thesis by simp
    next
      case (Some i)
      then have "probe t k True ft (slot_at t k d) = Some i"
        using step False by (simp add: Let_def)
      moreover from Some Suc.prems(3) obtain dt where
        dt: "dt < d" "i = slot_at t k dt" "\<not> live (entry_at t k dt)"
        by (auto simp: ft_ok_def)
      have "insert_stop t k i"
        unfolding insert_stop_def
      proof (intro exI [of _ dt] conjI)
        show "dt < unat (capacity t)" using dt(1) Suc.prems(1) by simp
        show "i = slot_at t k dt" by (rule dt(2))
        show "clear_to t k dt" using Suc.prems(2) dt(1) by (simp add: clear_to_mono)
        show "hit k (entry_at t k dt) \<or> \<not> live (entry_at t k dt) \<and>
           (\<exists>d2\<ge>dt. d2 \<le> unat (capacity t) \<and> clear_to t k d2 \<and>
                  (d2 < unat (capacity t) \<longrightarrow> \<not> occupied (entry_at t k d2)))"
          using dt Suc.prems(1,2) False by (intro disjI2 conjI exI [of _ d]) auto
      qed
      ultimately show ?thesis by simp
    qed
  next
    case occ: True
    show ?thesis
    proof (cases "hit k (entry_at t k d)")
      case True
      then have "probe t k True ft (slot_at t k d) = Some (slot_at t k d)"
        using step occ by (simp add: Let_def)
      moreover have "insert_stop t k (slot_at t k d)"
        unfolding insert_stop_def using Suc.prems(1,2) True by blast
      ultimately show ?thesis by simp
    next
      case False
      define ft' where "ft' = (if key (entry_at t k d) = DELETED_KEY \<and> ft = None
                               then Some (slot_at t k d) else ft)"
      have c: "clear_to t k (Suc d)" using Suc.prems(2) occ False by (simp add: clear_to_Suc)
      have f: "ft_ok t k (Suc d) ft'"
      proof (cases ft)
        case None
        show ?thesis
        proof (cases "key (entry_at t k d) = DELETED_KEY")
          case True
          then show ?thesis using None
            by (auto simp: ft_ok_def ft'_def live_def)
        next
          case F: False
          then have "live (entry_at t k d)" using occ by (simp add: live_def)
          then show ?thesis using None F Suc.prems(3)
            by (auto simp: ft_ok_def ft'_def less_Suc_eq)
        qed
      next
        case (Some i)
        then show ?thesis using Suc.prems(3)
          by (auto simp: ft_ok_def ft'_def less_Suc_eq)
      qed
      show ?thesis
      proof (cases "Suc d < unat (capacity t)")
        case True
        have "probe t k True ft (slot_at t k d) = probe t k True ft' (slot_at t k (Suc d))"
          using step occ False True by (simp add: Let_def ft'_def)
        moreover have "n = unat (capacity t) - Suc d" using Suc.hyps(2) by simp
        ultimately show ?thesis using Suc.hyps(1) [of "Suc d" ft'] True c f by simp
      next
        case F2: False
        then have e: "Suc d = unat (capacity t)" using Suc.prems(1) by simp
        have r: "probe t k True ft (slot_at t k d) = ft'"
          using step occ False F2 by (simp add: Let_def ft'_def)
        show ?thesis
        proof (cases ft')
          case None
          then show ?thesis using r c f e by (simp add: ft_ok_def)
        next
          case (Some i)
          with f obtain dt where
            dt: "dt < Suc d" "i = slot_at t k dt" "\<not> live (entry_at t k dt)"
            by (auto simp: ft_ok_def)
          have "insert_stop t k i"
            unfolding insert_stop_def
          proof (intro exI [of _ dt] conjI)
            show "dt < unat (capacity t)" using dt(1) e by simp
            show "i = slot_at t k dt" by (rule dt(2))
            show "clear_to t k dt" using c dt(1) by (simp add: clear_to_mono)
            show "hit k (entry_at t k dt) \<or> \<not> live (entry_at t k dt) \<and>
               (\<exists>d2\<ge>dt. d2 \<le> unat (capacity t) \<and> clear_to t k d2 \<and>
                      (d2 < unat (capacity t) \<longrightarrow> \<not> occupied (entry_at t k d2)))"
              using dt c e by (intro disjI2 conjI exI [of _ "Suc d"]) auto
          qed
          then show ?thesis using r Some by simp
        qed
      qed
    qed
  qed
qed

lemma find_slot_lookup:
  "case find_slot t k False of
     None \<Rightarrow> capacity t = 0 \<or> clear_to t k (unat (capacity t))
   | Some i \<Rightarrow> lookup_stop t k i"
proof (cases "capacity t = 0")
  case True
  then show ?thesis by (simp add: find_slot_def)
next
  case False
  then have c: "0 < unat (capacity t)" by (simp add: unat_gt_0)
  have "clear_to t k 0" by (simp add: clear_to_def)
  from probe_lookup [OF c c this, of None] False show ?thesis
    by (simp add: find_slot_def slot_at_0 split: option.splits)
qed

lemma find_slot_insert:
  "case find_slot t k True of
     None \<Rightarrow> capacity t = 0 \<or> (clear_to t k (unat (capacity t))
                \<and> (\<forall>d<unat (capacity t). live (entry_at t k d)))
   | Some i \<Rightarrow> insert_stop t k i"
proof (cases "capacity t = 0")
  case True
  then show ?thesis by (simp add: find_slot_def)
next
  case False
  then have c: "0 < unat (capacity t)" by (simp add: unat_gt_0)
  have "clear_to t k 0" "ft_ok t k 0 None" by (simp_all add: clear_to_def ft_ok_def)
  from probe_insert [OF c c this] False show ?thesis
    by (simp add: find_slot_def slot_at_0 split: option.splits)
qed

lemma ht_inv_cong:
  "entries t = entries t' \<Longrightarrow> capacity t = capacity t' \<Longrightarrow> ht_inv t = ht_inv t'"
  by (simp add: ht_inv_def wf_def chain_def uniq_def entry_at_def slot_at_def)

lemma find_slot_lookup_present:
  assumes inv: "ht_inv t" and i: "i < unat (capacity t)" and h: "hit k (entries t ! i)"
  shows "find_slot t k False = Some i"
proof -
  have c: "0 < unat (capacity t)" using i by simp
  have ki: "key (entries t ! i) = k" and li: "live (entries t ! i)" using h by (simp_all add: hit_def)
  from inv i li obtain d where d: "d < unat (capacity t)" "i = slot_at t k d"
    "\<forall>d'<d. occupied (entry_at t k d')"
    unfolding ht_inv_def chain_def ki [symmetric] by blast
  have hd: "hit k (entry_at t k d)" using h d(2) by (simp add: entry_at_def)
  show ?thesis
  proof (cases "find_slot t k False")
    case None
    with find_slot_lookup [of t k] c have "clear_to t k (unat (capacity t))" by auto
    with d(1) hd show ?thesis by (simp add: clear_to_def)
  next
    case (Some j)
    with find_slot_lookup [of t k] obtain d2 where d2: "d2 < unat (capacity t)"
      "j = slot_at t k d2" "clear_to t k d2"
      "\<not> occupied (entry_at t k d2) \<or> hit k (entry_at t k d2)"
      by (auto simp: lookup_stop_def)
    have "\<not> d < d2" using d2(3) hd by (auto simp: clear_to_def)
    moreover have "d2 = d" if "d2 \<le> d"
    proof (rule ccontr)
      assume "d2 \<noteq> d"
      with that have lt: "d2 < d" by simp
      with d(3) d2(4) have h2: "hit k (entry_at t k d2)" by auto
      then have "live (entries t ! j)" "key (entries t ! j) = k"
        by (simp_all add: hit_def entry_at_def d2(2))
      moreover have "j < unat (capacity t)" using d2(2) c by (simp add: slot_at_less)
      ultimately have "i = j" using inv i li ki unfolding ht_inv_def uniq_def by blast
      then have "d = d2" using slot_at_inj [OF d(1) d2(1), of k] d(2) d2(2) by simp
      with lt show False by simp
    qed
    ultimately have "d2 = d" by simp
    with Some d(2) d2(2) show ?thesis by simp
  qed
qed

lemma find_slot_lookup_absent:
  assumes "absent t k" "find_slot t k False = Some i"
  shows "i < unat (capacity t) \<and> \<not> occupied (entries t ! i)"
proof -
  have c: "0 < unat (capacity t)"
    using assms(2) by (auto simp: find_slot_def unat_gt_0 split: if_splits)
  from find_slot_lookup [of t k] assms(2) obtain d where d: "d < unat (capacity t)"
    "i = slot_at t k d" "\<not> occupied (entry_at t k d) \<or> hit k (entry_at t k d)"
    by (auto simp: lookup_stop_def)
  have il: "i < unat (capacity t)" using d(2) c by (simp add: slot_at_less)
  with assms(1) have "\<not> hit k (entries t ! i)" by (simp add: absent_def)
  with d(2,3) il show ?thesis by (simp add: entry_at_def)
qed

lemma find_slot_insert_inv:
  assumes inv: "ht_inv t" and f: "find_slot t k True = Some i"
  shows "i < unat (capacity t)"
    and "hit k (entries t ! i) \<or> (\<not> live (entries t ! i) \<and> absent t k)"
    and "\<exists>d<unat (capacity t). i = slot_at t k d \<and> (\<forall>d'<d. occupied (entry_at t k d'))"
proof -
  have c: "0 < unat (capacity t)" using inv by (simp add: ht_inv_def wf_def)
  from find_slot_insert [of t k] f obtain d where d: "d < unat (capacity t)"
    "i = slot_at t k d" "clear_to t k d"
    and alt: "hit k (entry_at t k d) \<or> (\<not> live (entry_at t k d)
         \<and> (\<exists>d2. d \<le> d2 \<and> d2 \<le> unat (capacity t) \<and> clear_to t k d2
                \<and> (d2 < unat (capacity t) \<longrightarrow> \<not> occupied (entry_at t k d2))))"
    by (auto simp: insert_stop_def)
  show "i < unat (capacity t)" using d(2) c by (simp add: slot_at_less)
  show "\<exists>d<unat (capacity t). i = slot_at t k d \<and> (\<forall>d'<d. occupied (entry_at t k d'))"
    using d by (auto simp: clear_to_def)
  show "hit k (entries t ! i) \<or> (\<not> live (entries t ! i) \<and> absent t k)"
  proof (cases "hit k (entry_at t k d)")
    case True
    then show ?thesis by (simp add: entry_at_def d(2))
  next
    case False
    with alt obtain d2 where nl: "\<not> live (entry_at t k d)"
      and d2: "d \<le> d2" "d2 \<le> unat (capacity t)" "clear_to t k d2"
        "d2 < unat (capacity t) \<longrightarrow> \<not> occupied (entry_at t k d2)"
      by blast
    have "absent t k"
      unfolding absent_def
    proof (intro allI impI notI)
      fix j assume j: "j < unat (capacity t)" and hj: "hit k (entries t ! j)"
      then have lj: "live (entries t ! j)" and kj: "key (entries t ! j) = k"
        by (simp_all add: hit_def)
      from inv j lj obtain dj where dj: "dj < unat (capacity t)" "j = slot_at t k dj"
        "\<forall>d'<dj. occupied (entry_at t k d')"
        unfolding ht_inv_def chain_def kj [symmetric] by blast
      have hdj: "hit k (entry_at t k dj)" using hj dj(2) by (simp add: entry_at_def)
      then have odj: "occupied (entry_at t k dj)" by (simp add: hit_def live_def)
      have "\<not> dj < d2" using d2(3) hdj by (auto simp: clear_to_def)
      then have "d2 \<le> dj" by simp
      then have "d2 < unat (capacity t)" using dj(1) by simp
      with d2(4) have "\<not> occupied (entry_at t k d2)" by simp
      with dj(3) odj \<open>d2 \<le> dj\<close> show False by (cases "d2 = dj") auto
    qed
    with nl show ?thesis by (simp add: entry_at_def d(2))
  qed
qed

lemma ht_inv_insert:
  assumes inv: "ht_inv t" and i: "i < unat (capacity t)"
    and alt: "hit k (entries t ! i) \<or> (\<not> live (entries t ! i) \<and> absent t k)"
    and reach: "\<exists>d<unat (capacity t). i = slot_at t k d \<and> (\<forall>d'<d. occupied (entry_at t k d'))"
    and e: "occupied e" "key e = k"
    and t': "entries t' = (entries t)[i := e]" "capacity t' = capacity t"
  shows "ht_inv t'"
proof -
  let ?c = "unat (capacity t)"
  have len: "length (entries t) = ?c" using inv by (simp add: ht_inv_def wf_def)
  have nth: "\<And>j. j < ?c \<Longrightarrow> entries t' ! j = (if j = i then e else entries t ! j)"
    using len by (simp add: t'(1) nth_list_update)
  have sl: "\<And>k d. slot_at t' k d = slot_at t k d" by (simp add: slot_at_def t'(2))
  have occ: "\<And>j. j < ?c \<Longrightarrow> occupied (entries t ! j) \<Longrightarrow> occupied (entries t' ! j)"
    using e(1) by (simp add: nth)
  have occ_at: "\<And>k d. occupied (entry_at t k d) \<Longrightarrow> occupied (entry_at t' k d)"
    using occ i by (simp add: entry_at_def sl slot_at_less)
  have other: "hit k (entries t ! j)" if "j < ?c" "j \<noteq> i" "live (entries t' ! j)"
    "key (entries t' ! j) = k" for j
    using that by (simp add: nth hit_def)
  have no_other: "\<not> hit k (entries t ! j)" if "j < ?c" "j \<noteq> i" for j
  proof
    assume h: "hit k (entries t ! j)"
    from alt show False
    proof
      assume "hit k (entries t ! i)"
      with h that(1) i inv have "i = j" unfolding ht_inv_def uniq_def hit_def by blast
      with that(2) show False by simp
    next
      assume "\<not> live (entries t ! i) \<and> absent t k"
      with h that(1) show False by (simp add: absent_def)
    qed
  qed
  have "wf t'" using inv by (simp add: ht_inv_def wf_def t')
  moreover have "chain t'"
    unfolding chain_def t'(2)
  proof (intro allI impI)
    fix j assume j: "j < ?c" and lj: "live (entries t' ! j)"
    show "\<exists>d<?c. j = slot_at t' (key (entries t' ! j)) d
             \<and> (\<forall>d'<d. occupied (entry_at t' (key (entries t' ! j)) d'))"
    proof (cases "j = i")
      case True
      then have "key (entries t' ! j) = k" using j e(2) by (simp add: nth)
      with reach True occ_at show ?thesis by (auto simp: sl)
    next
      case False
      then have eq: "entries t' ! j = entries t ! j" using j by (simp add: nth)
      with inv j lj obtain d where "d < ?c" "j = slot_at t (key (entries t ! j)) d"
        "\<forall>d'<d. occupied (entry_at t (key (entries t ! j)) d')"
        unfolding ht_inv_def chain_def by auto
      with occ_at show ?thesis by (auto simp: eq sl)
    qed
  qed
  moreover have "uniq t'"
    unfolding uniq_def t'(2)
  proof (intro allI impI)
    fix a b assume a: "a < ?c" and b: "b < ?c"
      and la: "live (entries t' ! a)" and lb: "live (entries t' ! b)"
      and kk: "key (entries t' ! a) = key (entries t' ! b)"
    show "a = b"
    proof (cases "a = i")
      case ai: True
      show ?thesis
      proof (cases "b = i")
        case True
        with ai show ?thesis by simp
      next
        case False
        have "key (entries t' ! b) = k" using kk ai a e(2) by (simp add: nth)
        with other [OF b False lb] no_other [OF b False] show ?thesis by simp
      qed
    next
      case an: False
      show ?thesis
      proof (cases "b = i")
        case True
        have "key (entries t' ! a) = k" using kk True b e(2) by (simp add: nth)
        with other [OF a an la] no_other [OF a an] show ?thesis by simp
      next
        case False
        with an a b la lb kk inv show ?thesis
          unfolding ht_inv_def uniq_def by (simp add: nth)
      qed
    qed
  qed
  ultimately show ?thesis by (simp add: ht_inv_def)
qed

lemma ht_inv_shape:
  assumes inv: "ht_inv t" and c: "capacity t' = capacity t"
    and len: "length (entries t') = length (entries t)"
    and same: "\<And>j. j < unat (capacity t) \<Longrightarrow>
        occupied (entries t' ! j) = occupied (entries t ! j) \<and>
        (live (entries t' ! j) \<longrightarrow>
           live (entries t ! j) \<and> key (entries t' ! j) = key (entries t ! j))"
  shows "ht_inv t'"
proof -
  let ?c = "unat (capacity t)"
  have cpos: "0 < ?c" using inv by (simp add: ht_inv_def wf_def)
  have sl: "\<And>k d. slot_at t' k d = slot_at t k d" by (simp add: slot_at_def c)
  have occ_at: "\<And>k d. occupied (entry_at t' k d) = occupied (entry_at t k d)"
    using same cpos by (simp add: entry_at_def sl slot_at_less)
  have "wf t'" using inv by (simp add: ht_inv_def wf_def c len)
  moreover have "chain t'"
    unfolding chain_def c
  proof (intro allI impI)
    fix j assume j: "j < ?c" and lj: "live (entries t' ! j)"
    then have l: "live (entries t ! j)" and k: "key (entries t' ! j) = key (entries t ! j)"
      using same by auto
    with inv j show "\<exists>d<?c. j = slot_at t' (key (entries t' ! j)) d
             \<and> (\<forall>d'<d. occupied (entry_at t' (key (entries t' ! j)) d'))"
      unfolding ht_inv_def chain_def by (simp add: sl occ_at)
  qed
  moreover have "uniq t'"
    unfolding uniq_def c
  proof (intro allI impI)
    fix a b assume a: "a < ?c" and b: "b < ?c"
      and la: "live (entries t' ! a)" and lb: "live (entries t' ! b)"
      and kk: "key (entries t' ! a) = key (entries t' ! b)"
    from a la same have "live (entries t ! a)" "key (entries t' ! a) = key (entries t ! a)"
      by auto
    moreover from b lb same have "live (entries t ! b)" "key (entries t' ! b) = key (entries t ! b)"
      by auto
    ultimately show "a = b" using inv a b kk unfolding ht_inv_def uniq_def by auto
  qed
  ultimately show ?thesis by (simp add: ht_inv_def)
qed

lemma ht_inv_new_table: "cap \<noteq> 0 \<Longrightarrow> ht_inv (new_table cap)"
  by (auto simp: ht_inv_def wf_def chain_def uniq_def new_table_def live_def empty_entry_def
      unat_gt_0)

lemma ht_set_store_inv:
  assumes "ht_inv t" "k \<noteq> DELETED_KEY"
  shows "ht_inv (fst (snd (ht_set_store eob t s k v)))"
proof (cases "find_slot t k True")
  case None
  then show ?thesis using assms(1) by (simp add: ht_set_store_def)
next
  case (Some i)
  note fs = find_slot_insert_inv [OF assms(1) Some]
  show ?thesis
  proof (cases "fst (alloc s)")
    case False
    then show ?thesis using assms(1) Some
      by (auto simp: ht_set_store_def Let_def split: prod.split)
  next
    case True
    have "ht_inv t'" if "entries t' = (entries t)[i := \<lparr>key = k, val = Str v, occupied = True\<rparr>]"
      "capacity t' = capacity t" for t'
      by (rule ht_inv_insert [OF assms(1) fs _ _ that]) simp_all
    then show ?thesis using True Some
      by (auto simp: ht_set_store_def Let_def split: prod.split)
  qed
qed

lemma ht_delete_inv:
  assumes "ht_inv t"
  shows "ht_inv (fst (snd (ht_delete t s k)))"
proof (cases "find_slot t k False")
  case None
  then show ?thesis using assms by (simp add: ht_delete_def)
next
  case (Some i)
  have c: "0 < unat (capacity t)" using assms by (simp add: ht_inv_def wf_def)
  from find_slot_lookup [of t k] Some have il: "i < unat (capacity t)"
    by (auto simp: lookup_stop_def slot_at_less c)
  have len: "length (entries t) = unat (capacity t)" using assms by (simp add: ht_inv_def wf_def)
  have "ht_inv t'" if "occupied (entries t ! i)" "capacity t' = capacity t"
    "entries t' = (entries t)[i := (entries t ! i)\<lparr>val := Null, key := DELETED_KEY\<rparr>]" for t'
    by (rule ht_inv_shape [OF assms that(2)])
       (use that len il in \<open>auto simp: nth_list_update live_def\<close>)
  then show ?thesis using assms Some
    by (auto simp: ht_delete_def Let_def)
qed

lemma ht_inv_mk_table: "ht_inv (mk_table (entries t) (capacity t)) = ht_inv t"
  by (rule ht_inv_cong) (simp_all add: mk_table_def)

lemma ht_inv_free_slot:
  assumes "ht_inv (mk_table old oc)"
  shows "ht_inv (mk_table (old[i := (old ! i)\<lparr>val := x\<rparr>]) oc)"
proof (rule ht_inv_shape [OF assms])
  fix j assume "j < unat (capacity (mk_table old oc))"
  then have "j < length old" using assms by (simp add: ht_inv_def wf_def mk_table_def)
  then show "occupied (entries (mk_table (old[i := (old ! i)\<lparr>val := x\<rparr>]) oc) ! j) =
         occupied (entries (mk_table old oc) ! j) \<and>
         (live (entries (mk_table (old[i := (old ! i)\<lparr>val := x\<rparr>]) oc) ! j) \<longrightarrow>
          live (entries (mk_table old oc) ! j) \<and>
          key (entries (mk_table (old[i := (old ! i)\<lparr>val := x\<rparr>]) oc) ! j) =
          key (entries (mk_table old oc) ! j))"
    by (cases "i = j") (simp_all add: mk_table_def live_def)
qed (simp_all add: mk_table_def)

lemma inv_preserved:
  "ht_inv t \<Longrightarrow> ht_inv (fst (snd (ht_set eob t s k vo)))"
  "ht_inv t \<Longrightarrow> ht_inv (fst (snd (resize_table eob t s nc)))"
  "ht_inv t \<Longrightarrow> ht_inv (mk_table old oc) \<Longrightarrow> ht_inv (fst (snd (reinsert eob old oc i t s)))"
proof (induct eob t s k vo and eob t s nc and eob old oc i t s
    rule: ht_set_resize_table_reinsert.induct)
  case (1 eob t s k vo)
  show ?case
  proof (cases vo)
    case None
    then show ?thesis using "1.prems" by (simp add: ht_set.simps)
  next
    case (Some v)
    show ?thesis
    proof (cases "k = DELETED_KEY")
      case True
      then show ?thesis using "1.prems" Some by (simp add: ht_set.simps)
    next
      case nk: False
      show ?thesis
      proof (cases "load_factor_reached t")
        case False
        then show ?thesis using Some nk ht_set_store_inv [OF "1.prems" nk]
          by (simp add: ht_set.simps)
      next
        case True
        obtain ok t1 s1 where r: "resize_table eob t s (capacity t * 2) = (ok, t1, s1)"
          by (cases "resize_table eob t s (capacity t * 2)") auto
        from "1.hyps" [OF Some nk True "1.prems"] r have "ht_inv t1" by simp
        then show ?thesis using Some nk True r ht_set_store_inv [of t1 k eob s1 v]
          by (simp add: ht_set.simps)
      qed
    qed
  qed
next
  case (2 eob t s nc)
  show ?case
  proof (cases "nc \<le> capacity t")
    case True
    then show ?thesis using "2.prems" by (simp add: resize_table.simps)
  next
    case False
    obtain ok s1 where a: "alloc s = (ok, s1)" by (cases "alloc s") auto
    show ?thesis
    proof (cases ok)
      case False
      then show ?thesis using "2.prems" a \<open>\<not> nc \<le> capacity t\<close>
        by (simp add: resize_table.simps)
    next
      case True
      let ?new = "t\<lparr>entries := replicate (unat nc) empty_entry, capacity := nc,
                     size := 0, tombstones := 0\<rparr>"
      have "nc \<noteq> 0" using \<open>\<not> nc \<le> capacity t\<close> by auto
      then have "ht_inv (new_table nc)" by (rule ht_inv_new_table)
      then have n: "ht_inv ?new"
        by (subst ht_inv_cong [of _ "new_table nc"]) (simp_all add: new_table_def)
      have o: "ht_inv (mk_table (entries t) (capacity t))"
        using "2.prems" by (simp add: ht_inv_mk_table)
      from "2.hyps" [OF \<open>\<not> nc \<le> capacity t\<close> a [symmetric] _ n o] True
      show ?thesis using a \<open>\<not> nc \<le> capacity t\<close> by (simp add: resize_table.simps)
    qed
  qed
next
  case (3 eob old oc i t s)
  show ?case
  proof (cases "i < unat oc")
    case False
    then show ?thesis using "3.prems" by (simp add: reinsert.simps)
  next
    case il: True
    define e where "e = old ! i"
    define old' where "old' = old[i := e\<lparr>val := free (val e)\<rparr>]"
    have o': "ht_inv (mk_table old' oc)"
      unfolding old'_def e_def by (rule ht_inv_free_slot [OF "3.prems"(2)])
    have unf: "reinsert eob old oc i t s =
        (if occupied e \<and> key e \<noteq> DELETED_KEY then
           (case ht_set eob t s (key e) (pointee (val e)) of
              (ok, t1, s1) \<Rightarrow>
                if \<not> ok then (False, t1\<lparr>entries := old, capacity := oc\<rparr>, s1)
                else reinsert eob old' oc (i + 1) t1 s1)
         else reinsert eob old' oc (i + 1) t s)"
      unfolding e_def old'_def using il by (subst reinsert.simps) (simp add: Let_def)
    show ?thesis
    proof (cases "occupied e \<and> key e \<noteq> DELETED_KEY")
      case False
      from "3.hyps"(3) [OF il e_def old'_def False "3.prems"(1) o']
      show ?thesis using False by (auto simp: unf)
    next
      case True
      obtain ok t1 s1 where r: "ht_set eob t s (key e) (pointee (val e)) = (ok, t1, s1)"
        by (cases "ht_set eob t s (key e) (pointee (val e))") auto
      from "3.hyps"(1) [OF il e_def old'_def True "3.prems"(1)] r have t1: "ht_inv t1" by simp
      show ?thesis
      proof (cases ok)
        case False
        have "ht_inv (t1\<lparr>entries := old, capacity := oc\<rparr>)"
          using "3.prems"(2) by (subst ht_inv_cong [of _ "mk_table old oc"]) (simp_all add: mk_table_def)
        then show ?thesis using True r False by (simp add: unf)
      next
        case ok: True
        from "3.hyps"(2) [OF il e_def old'_def True r [symmetric] refl _ t1 o'] ok
        show ?thesis using True r by (simp add: unf)
      qed
    qed
  qed
qed

lemma absent_cong:
  "entries t = entries t' \<Longrightarrow> capacity t = capacity t' \<Longrightarrow> absent t a = absent t' a"
  by (simp add: absent_def)

lemma absent_new_table: "absent (new_table cap) a"
  by (simp add: absent_def new_table_def hit_def live_def empty_entry_def)

lemma absent_free_slot:
  assumes "absent (mk_table old oc) a"
  shows "absent (mk_table (old[i := (old ! i)\<lparr>val := x\<rparr>]) oc) a"
  unfolding absent_def
proof (intro allI impI)
  fix j assume "j < unat (capacity (mk_table (old[i := (old ! i)\<lparr>val := x\<rparr>]) oc))"
  then have j: "j < unat oc" by (simp add: mk_table_def)
  with assms have n: "\<not> hit a (old ! j)" by (simp add: absent_def mk_table_def)
  show "\<not> hit a (entries (mk_table (old[i := (old ! i)\<lparr>val := x\<rparr>]) oc) ! j)"
  proof (cases "i = j \<and> i < length old")
    case True
    then show ?thesis using n by (simp add: mk_table_def hit_def live_def)
  next
    case False
    then have "old[i := (old ! i)\<lparr>val := x\<rparr>] ! j = old ! j"
      by (cases "i = j") (simp_all add: list_update_beyond)
    then show ?thesis using n by (simp add: mk_table_def)
  qed
qed

lemma ht_set_store_absent:
  assumes "ht_inv t" "absent t a" "k \<noteq> a"
  shows "absent (fst (snd (ht_set_store eob t s k v))) a"
proof (cases "find_slot t k True")
  case None
  then show ?thesis using assms(2) by (simp add: ht_set_store_def)
next
  case (Some i)
  have len: "length (entries t) = unat (capacity t)" using assms(1) by (simp add: ht_inv_def wf_def)
  note il = find_slot_insert_inv(1) [OF assms(1) Some]
  have "absent t' a" if "entries t' = (entries t)[i := \<lparr>key = k, val = Str v, occupied = True\<rparr>]"
    "capacity t' = capacity t" for t'
    using assms(2,3) that len il by (auto simp: absent_def nth_list_update hit_def)
  then show ?thesis using Some assms(2)
    by (auto simp: ht_set_store_def Let_def split: prod.split)
qed

lemma absent_preserved:
  "ht_inv t \<Longrightarrow> absent t a \<Longrightarrow> k \<noteq> a \<Longrightarrow> absent (fst (snd (ht_set eob t s k vo))) a"
  "ht_inv t \<Longrightarrow> absent t a \<Longrightarrow> absent (fst (snd (resize_table eob t s nc))) a"
  "ht_inv t \<Longrightarrow> ht_inv (mk_table old oc) \<Longrightarrow> absent t a \<Longrightarrow> absent (mk_table old oc) a
     \<Longrightarrow> absent (fst (snd (reinsert eob old oc i t s))) a"
proof (induct eob t s k vo and eob t s nc and eob old oc i t s
    rule: ht_set_resize_table_reinsert.induct)
  case (1 eob t s k vo)
  show ?case
  proof (cases vo)
    case None
    then show ?thesis using "1.prems" by (simp add: ht_set.simps)
  next
    case (Some v)
    show ?thesis
    proof (cases "k = DELETED_KEY")
      case True
      then show ?thesis using "1.prems" Some by (simp add: ht_set.simps)
    next
      case nk: False
      show ?thesis
      proof (cases "load_factor_reached t")
        case False
        then show ?thesis using Some nk ht_set_store_absent [OF "1.prems"]
          by (simp add: ht_set.simps)
      next
        case True
        obtain ok t1 s1 where r: "resize_table eob t s (capacity t * 2) = (ok, t1, s1)"
          by (cases "resize_table eob t s (capacity t * 2)") auto
        from "1.hyps" [OF Some nk True "1.prems"(1,2)] r have a1: "absent t1 a" by simp
        from inv_preserved(2) [OF "1.prems"(1), of eob s "capacity t * 2"] r
        have i1: "ht_inv t1" by simp
        show ?thesis using Some nk True r ht_set_store_absent [OF i1 a1 "1.prems"(3)] a1
          by (simp add: ht_set.simps)
      qed
    qed
  qed
next
  case (2 eob t s nc)
  show ?case
  proof (cases "nc \<le> capacity t")
    case True
    then show ?thesis using "2.prems" by (simp add: resize_table.simps)
  next
    case False
    obtain ok s1 where al: "alloc s = (ok, s1)" by (cases "alloc s") auto
    show ?thesis
    proof (cases ok)
      case False
      then show ?thesis using "2.prems" al \<open>\<not> nc \<le> capacity t\<close>
        by (simp add: resize_table.simps)
    next
      case True
      let ?new = "t\<lparr>entries := replicate (unat nc) empty_entry, capacity := nc,
                     size := 0, tombstones := 0\<rparr>"
      have "nc \<noteq> 0" using \<open>\<not> nc \<le> capacity t\<close> by auto
      then have "ht_inv (new_table nc)" by (rule ht_inv_new_table)
      then have n: "ht_inv ?new"
        by (subst ht_inv_cong [of _ "new_table nc"]) (simp_all add: new_table_def)
      have na: "absent ?new a"
        using absent_new_table [of nc a]
        by (subst absent_cong [of _ "new_table nc"]) (simp_all add: new_table_def)
      have o: "ht_inv (mk_table (entries t) (capacity t))"
        using "2.prems" by (simp add: ht_inv_mk_table)
      have oa: "absent (mk_table (entries t) (capacity t)) a"
        using "2.prems"(2) by (subst absent_cong [of _ t]) (simp_all add: mk_table_def)
      from "2.hyps" [OF \<open>\<not> nc \<le> capacity t\<close> al [symmetric] _ n o na oa] True
      show ?thesis using al \<open>\<not> nc \<le> capacity t\<close> by (simp add: resize_table.simps)
    qed
  qed
next
  case (3 eob old oc i t s)
  show ?case
  proof (cases "i < unat oc")
    case False
    then show ?thesis using "3.prems" by (simp add: reinsert.simps)
  next
    case il: True
    define e where "e = old ! i"
    define old' where "old' = old[i := e\<lparr>val := free (val e)\<rparr>]"
    have o': "ht_inv (mk_table old' oc)"
      unfolding old'_def e_def by (rule ht_inv_free_slot [OF "3.prems"(2)])
    have oa': "absent (mk_table old' oc) a"
      unfolding old'_def e_def by (rule absent_free_slot [OF "3.prems"(4)])
    have unf: "reinsert eob old oc i t s =
        (if occupied e \<and> key e \<noteq> DELETED_KEY then
           (case ht_set eob t s (key e) (pointee (val e)) of
              (ok, t1, s1) \<Rightarrow>
                if \<not> ok then (False, t1\<lparr>entries := old, capacity := oc\<rparr>, s1)
                else reinsert eob old' oc (i + 1) t1 s1)
         else reinsert eob old' oc (i + 1) t s)"
      unfolding e_def old'_def using il by (subst reinsert.simps) (simp add: Let_def)
    show ?thesis
    proof (cases "occupied e \<and> key e \<noteq> DELETED_KEY")
      case False
      from "3.hyps"(3) [OF il e_def old'_def False "3.prems"(1) o' "3.prems"(3) oa']
      show ?thesis using False by (auto simp: unf)
    next
      case True
      then have "hit (key e) (old ! i)" by (simp add: hit_def live_def e_def)
      with "3.prems"(4) il have ne: "key e \<noteq> a"
        by (auto simp: absent_def mk_table_def)
      obtain ok t1 s1 where r: "ht_set eob t s (key e) (pointee (val e)) = (ok, t1, s1)"
        by (cases "ht_set eob t s (key e) (pointee (val e))") auto
      from "3.hyps"(1) [OF il e_def old'_def True "3.prems"(1,3) ne] r
      have a1: "absent t1 a" by simp
      from inv_preserved(1) [OF "3.prems"(1), of eob s "key e" "pointee (val e)"] r
      have i1: "ht_inv t1" by simp
      show ?thesis
      proof (cases ok)
        case False
        have "absent (t1\<lparr>entries := old, capacity := oc\<rparr>) a"
          using "3.prems"(4)
          by (subst absent_cong [of _ "mk_table old oc"]) (simp_all add: mk_table_def)
        then show ?thesis using True r False by (simp add: unf)
      next
        case ok: True
        from "3.hyps"(2) [OF il e_def old'_def True r [symmetric] refl _ i1 o' a1 oa'] ok
        show ?thesis using True r by (simp add: unf)
      qed
    qed
  qed
qed

lemma ht_delete_absent_other:
  assumes "ht_inv t" "absent t a"
  shows "absent (fst (snd (ht_delete t s k))) a"
proof (cases "find_slot t k False")
  case None
  then show ?thesis using assms by (simp add: ht_delete_def)
next
  case (Some i)
  have len: "length (entries t) = unat (capacity t)" using assms(1) by (simp add: ht_inv_def wf_def)
  have c: "0 < unat (capacity t)" using assms(1) by (simp add: ht_inv_def wf_def)
  from find_slot_lookup [of t k] Some have il: "i < unat (capacity t)"
    by (auto simp: lookup_stop_def slot_at_less c)
  have "absent t' a" if "capacity t' = capacity t"
    "entries t' = (entries t)[i := (entries t ! i)\<lparr>val := Null, key := DELETED_KEY\<rparr>]" for t'
    using assms(2) that len il by (auto simp: absent_def nth_list_update hit_def live_def)
  then show ?thesis using assms Some
    by (auto simp: ht_delete_def Let_def)
qed

lemma ht_delete_absent:
  assumes inv: "ht_inv t" and d: "ht_delete t s k = (True, t1, s1)"
  shows "absent t1 k"
proof -
  from d obtain i where fs: "find_slot t k False = Some i"
    and occ: "occupied (entries t ! i)" and ki: "key (entries t ! i) = k" and nk: "k \<noteq> DELETED_KEY"
    and t1: "t1 = t\<lparr>entries := (entries t)[i := (entries t ! i)\<lparr>val := Null, key := DELETED_KEY\<rparr>],
                   size := size t - 1, tombstones := tombstones t + 1\<rparr>"
    by (auto simp: ht_delete_def Let_def split: if_splits option.splits)
  have c: "0 < unat (capacity t)" and len: "length (entries t) = unat (capacity t)"
    using inv by (simp_all add: ht_inv_def wf_def)
  from find_slot_lookup [of t k] fs have il: "i < unat (capacity t)"
    by (auto simp: lookup_stop_def slot_at_less c)
  have li: "live (entries t ! i)" using occ ki nk by (simp add: live_def)
  show ?thesis
    unfolding absent_def
  proof (intro allI impI notI)
    fix j assume j: "j < unat (capacity t1)" and h: "hit k (entries t1 ! j)"
    then have jl: "j < unat (capacity t)" by (simp add: t1)
    show False
    proof (cases "j = i")
      case True
      with h il len show ?thesis by (simp add: t1 hit_def live_def)
    next
      case False
      with h jl len have "hit k (entries t ! j)" by (simp add: t1)
      then have "i = j" using inv il jl li ki unfolding ht_inv_def uniq_def hit_def by blast
      with False show ?thesis by simp
    qed
  qed
qed

lemma absent_not_found:
  assumes "absent t k"
  shows "ht_get t s k = (Null, kvs_set_error (if k = DELETED_KEY then KVS_ERROR_INVALID_PARAM
                                               else KVS_ERROR_KEY_NOT_FOUND) s)"
    and "ht_delete t s k = (False, t, kvs_set_error (if k = DELETED_KEY then KVS_ERROR_INVALID_PARAM
                                               else KVS_ERROR_KEY_NOT_FOUND) s)"
  using find_slot_lookup_absent [OF assms]
  by (auto simp: ht_get_def ht_delete_def Let_def split: option.splits)

lemma reachable_inv: "reachable t \<Longrightarrow> ht_inv t"
proof (induction rule: reachable.induct)
  case (created c s t s')
  then have "t = new_table (if c = 0 then DEFAULT_CAPACITY else c)"
    by (auto simp: ht_create_def Let_def split: prod.splits if_splits)
  then show ?case by (simp add: ht_inv_new_table DEFAULT_CAPACITY_def)
next
  case (after_set t eob s k vo b t' s')
  then show ?case using inv_preserved(1) [of t eob s k vo] by simp
next
  case (after_delete t s k b t' s')
  then show ?case using ht_delete_inv [of t s k] by simp
qed

lemma reachable_set: "reachable t \<Longrightarrow> reachable (fst (snd (ht_set eob t s k vo)))"
  by (cases "ht_set eob t s k vo") (auto intro: reachable.after_set)

lemma reachable_delete: "reachable t \<Longrightarrow> reachable (fst (snd (ht_delete t s k)))"
  by (cases "ht_delete t s k") (auto intro: reachable.after_delete)

lemma reachable_new_table: "reachable (new_table 16)"
proof -
  have "ht_create 0 env0 = (Some (new_table 16), env0)"
    by (simp add: ht_create_def alloc_def env0_def Let_def DEFAULT_CAPACITY_def
        kvs_clear_error_def kvs_set_error_def)
  then show ?thesis by (rule reachable.created)
qed

lemma run_absent:
  assumes "ht_inv t" "absent t a" "\<forall>op\<in>set ops. \<not> sets_key a op"
  shows "ht_inv (fst (run eob ops (t, s))) \<and> absent (fst (run eob ops (t, s))) a"
  using assms
proof (induction ops arbitrary: t s)
  case Nil
  then show ?case by (simp add: run_def)
next
  case (Cons op ops)
  obtain t1 s1 where a: "apply_op eob (t, s) op = (t1, s1)" by (cases "apply_op eob (t, s) op")
  have "ht_inv t1 \<and> absent t1 a"
  proof (cases op)
    case (Set k vo)
    with Cons.prems(3) have "k \<noteq> a" by simp
    with Set a Cons.prems(1,2) inv_preserved(1) [of t eob s k vo]
      absent_preserved(1) [of t a k eob s vo]
    show ?thesis by simp
  next
    case (Delete k)
    with a Cons.prems(1,2) ht_delete_inv [of t s k] ht_delete_absent_other [of t a s k]
    show ?thesis by simp
  qed
  with Cons.IH [of t1 s1] Cons.prems(3) a show ?case by (simp add: run_def)
qed

section \<open>Evaluation of the sample states\<close>

lemmas eval_simps = ht_set.simps ht_set_store_def find_slot_def
  probe.simps [of _ _ _ _ "numeral n" for n] probe.simps [of _ _ _ _ 0]
  probe.simps [of _ _ _ _ "Suc 0"] probe.simps [of _ _ _ _ 1]
  load_factor_reached_def new_table_def env0_def alloc_def Let_def hash_key_def key_bytes_def
  empty_entry_def DELETED_KEY_def kvs_set_error_def kvs_clear_error_def ht_get_def ht_delete_def

lemma pair_sample_eq:
  "pair_sample =
     \<lparr>entries = (replicate 16 empty_entry)
        [15 := \<lparr>key = 10, val = Str ''ten'', occupied = True\<rparr>,
         0 := \<lparr>key = 42, val = Str ''answer'', occupied = True\<rparr>],
      capacity = 16, size = 2, tombstones = 0\<rparr>"
  by (simp add: pair_sample_def eval_simps)

lemma tomb_sample_eq:
  "tomb_sample =
     \<lparr>entries = (replicate 16 empty_entry)
        [15 := \<lparr>key = DELETED_KEY, val = Null, occupied = True\<rparr>,
         0 := \<lparr>key = 42, val = Str ''answer'', occupied = True\<rparr>],
      capacity = 16, size = 1, tombstones = 1\<rparr>"
  by (simp add: tomb_sample_def pair_sample_eq eval_simps list_update_swap)

lemma pair_sample_reachable: "reachable pair_sample"
  unfolding pair_sample_def by (intro reachable_set reachable_new_table)

lemma tomb_sample_deleted: "ht_delete pair_sample env0 10 = (True, tomb_sample, env0)"
  by (simp add: tomb_sample_eq) (simp add: pair_sample_eq eval_simps list_update_swap)

section \<open>Reading and writing records\<close>

lemma take_le32 [simp]: "take 4 (le32 w @ xs) = le32 w"
  by simp

lemma drop_le32 [simp]: "drop 4 (le32 w @ xs) = xs"
  by simp

lemma kvs_set_error_clear [simp]: "kvs_set_error e (kvs_clear_error s) = kvs_set_error e s"
  by (simp add: kvs_set_error_def kvs_clear_error_def)

lemma load_header:
  "kvs_load_from_file eob t s (kvs_header n @ body) = load_entries eob (unat n) t s body"
  by (simp add: kvs_load_from_file_def kvs_header_def Let_def)

lemma load_entries_corrupt:
  "100000 < l \<Longrightarrow>
   load_entries eob (Suc n) t s (le32 k @ le32 l @ rest)
     = (False, t, kvs_set_error KVS_ERROR_CORRUPTION s)"
  by (simp add: Let_def)

lemma unat_value_len:
  "length v \<le> 100000 \<Longrightarrow> unat (word_of_nat (length v) :: 32 word) = length v"
  by (simp add: unat_of_nat)

lemma value_len_ok:
  "length v \<le> 100000 \<Longrightarrow> \<not> 100000 < (word_of_nat (length v) :: 32 word)"
  by (simp add: word_less_nat_alt unat_value_len)

lemma load_entries_record:
  assumes "length v \<le> 100000"
  shows "load_entries eob (Suc n) t s (encode_record (k, v) @ rest) =
     (case alloc s of
        (ok, s1) \<Rightarrow>
          if \<not> ok then (False, t, kvs_set_error KVS_ERROR_MEMORY s1)
          else
            (case ht_set eob t s1 k (Some (c_str v)) of
               (ok', t1, s2) \<Rightarrow>
                 if \<not> ok' then (False, t1, s2) else load_entries eob n t1 s2 rest))"
  using assms
  by (simp add: encode_record_def Let_def unat_value_len value_len_ok split: prod.split)

lemma load_entries_last:
  assumes "length v \<le> 100000"
  shows "load_entries eob (Suc n) t s (encode_record (k, v)) =
     (case alloc s of
        (ok, s1) \<Rightarrow>
          if \<not> ok then (False, t, kvs_set_error KVS_ERROR_MEMORY s1)
          else
            (case ht_set eob t s1 k (Some (c_str v)) of
               (ok', t1, s2) \<Rightarrow>
                 if \<not> ok' then (False, t1, s2) else load_entries eob n t1 s2 []))"
  using load_entries_record [OF assms, of eob n t s k "[]"] by simp

lemma load_entries_offending:
  assumes "\<forall>r\<in>set rs. length (snd r) \<le> 100000" and "100000 < l"
  shows "load_entries eob (length rs + Suc m) t s
           (concat (map encode_record rs) @ le32 k @ le32 l @ rest) =
         (case load_entries eob (length rs) t s (concat (map encode_record rs)) of
            (ok, t', s') \<Rightarrow>
              if ok then (False, t', kvs_set_error KVS_ERROR_CORRUPTION s') else (False, t', s'))"
  using assms(1)
proof (induction rs arbitrary: t s)
  case Nil
  then show ?case using assms(2) by (simp add: load_entries_corrupt)
next
  case (Cons r rs)
  obtain k' v where r: "r = (k', v)" by (cases r)
  have v: "length v \<le> 100000" using Cons.prems r by simp
  have rest: "\<forall>r\<in>set rs. length (snd r) \<le> 100000" using Cons.prems by simp
  show ?case
    using load_entries_record [OF v, of eob "length rs + Suc m" t s k'
        "concat (map encode_record rs) @ le32 k @ le32 l @ rest"]
      load_entries_record [OF v, of eob "length rs" t s k' "concat (map encode_record rs)"]
      Cons.IH [OF rest]
    by (simp add: r split: prod.split)
qed

lemma ht_iterator_next_None:
  "length (entries t) = unat (capacity t) \<Longrightarrow> ht_iterator_next t i = None \<Longrightarrow>
   filter live (drop i (entries t)) = []"
proof (induction t i rule: ht_iterator_next.induct)
  case (1 t index)
  show ?case
  proof (cases "index < unat (capacity t)")
    case False
    then show ?thesis using "1.prems"(1) by simp
  next
    case True
    with "1.prems"(2) have nl: "\<not> live (entries t ! index)"
      and n: "ht_iterator_next t (index + 1) = None"
      by (subst (asm) ht_iterator_next.simps, simp add: Let_def live_def split: if_splits)+
    have "drop index (entries t) = entries t ! index # drop (Suc index) (entries t)"
      using True "1.prems"(1) by (simp add: Cons_nth_drop_Suc)
    moreover have "filter live (drop (index + 1) (entries t)) = []"
      using nl by (intro "1.IH" [OF True refl _ "1.prems"(1) n]) (simp add: live_def)
    ultimately show ?thesis using nl by simp
  qed
qed

lemma ht_iterator_next_Some:
  "length (entries t) = unat (capacity t) \<Longrightarrow> ht_iterator_next t i = Some (k, v, i') \<Longrightarrow>
   (\<exists>e. filter live (drop i (entries t)) = e # filter live (drop i' (entries t))
        \<and> k = key e \<and> v = val e)"
proof (induction t i rule: ht_iterator_next.induct)
  case (1 t index)
  from "1.prems"(2) have il: "index < unat (capacity t)"
    by (subst (asm) ht_iterator_next.simps) (simp split: if_splits)
  have d: "drop index (entries t) = entries t ! index # drop (Suc index) (entries t)"
    using il "1.prems"(1) by (simp add: Cons_nth_drop_Suc)
  show ?case
  proof (cases "live (entries t ! index)")
    case True
    then have occ: "occupied (entries t ! index) \<and> key (entries t ! index) \<noteq> DELETED_KEY"
      by (simp add: live_def)
    have "ht_iterator_next t index
          = Some (key (entries t ! index), val (entries t ! index), index + 1)"
      by (subst ht_iterator_next.simps) (simp add: il occ Let_def)
    with "1.prems"(2) have "k = key (entries t ! index)" "v = val (entries t ! index)"
      "i' = Suc index"
      by simp_all
    then show ?thesis using d True by simp
  next
    case False
    then have occ: "\<not> (occupied (entries t ! index) \<and> key (entries t ! index) \<noteq> DELETED_KEY)"
      by (simp add: live_def)
    have "ht_iterator_next t index = ht_iterator_next t (index + 1)"
      by (subst ht_iterator_next.simps) (use il occ in \<open>auto simp: Let_def\<close>)
    with "1.prems"(2) have n: "ht_iterator_next t (index + 1) = Some (k, v, i')" by simp
    from "1.IH" [OF il refl occ "1.prems"(1) n] False
    show ?thesis using d by simp
  qed
qed

lemma save_entries_eq:
  "length (entries t) = unat (capacity t) \<Longrightarrow>
   save_entries t i out = out @ concat (map save_record (filter live (drop i (entries t))))"
proof (induction t i out rule: save_entries.induct)
  case (1 t index out)
  show ?case
  proof (cases "ht_iterator_next t index")
    case None
    then show ?thesis
      using ht_iterator_next_None [OF "1.prems" None]
      by (subst save_entries.simps) simp
  next
    case (Some r)
    obtain k v i' where r: "r = (k, v, i')" by (cases r)
    from ht_iterator_next_Some [OF "1.prems" Some [unfolded r]] obtain e where
      e: "filter live (drop index (entries t)) = e # filter live (drop i' (entries t))"
        "k = key e" "v = val e" by blast
    have "save_entries t index out = save_entries t i' (out @ save_record e)"
      by (subst save_entries.simps) (simp add: Some r e(2,3) Let_def save_record_def [of e])
    also have "\<dots> = (out @ save_record e)
        @ concat (map save_record (filter live (drop i' (entries t))))"
      using "1.IH" [OF Some [unfolded r] refl refl refl "1.prems"]
      by (simp add: e(2,3) save_record_def [of e])
    finally show ?thesis by (simp add: e(1))
  qed
qed

lemma c_str_id: "CHR 0x00 \<notin> set v \<Longrightarrow> c_str v = v"
  by (auto simp: c_str_def)

lemma three_sample_eq:
  "three_sample v1 v2 v3 =
     \<lparr>entries = (replicate 16 empty_entry)
        [1 := \<lparr>key = 100, val = Str v1, occupied = True\<rparr>,
         13 := \<lparr>key = 200, val = Str v2, occupied = True\<rparr>,
         14 := \<lparr>key = 300, val = Str v3, occupied = True\<rparr>],
      capacity = 16, size = 3, tombstones = 0\<rparr>"
  by (simp add: three_sample_def eval_simps)

lemma replicate_16: "replicate 16 x = [x, x, x, x, x, x, x, x, x, x, x, x, x, x, x, x]"
  by (simp add: eval_nat_numeral)

lemma three_sample_saved:
  assumes "length v1 \<le> 100000" "length v2 \<le> 100000" "length v3 \<le> 100000"
  shows "kvs_save_to_file (three_sample v1 v2 v3) env0 =
     (True,
      kvs_header 3 @ encode_record (100, v1) @ encode_record (200, v2) @ encode_record (300, v3),
      env0)"
proof -
  have "length (entries (three_sample v1 v2 v3)) = unat (capacity (three_sample v1 v2 v3))"
    by (simp add: three_sample_eq)
  note s = save_entries_eq [OF this]
  have f: "filter live (entries (three_sample v1 v2 v3)) =
      [\<lparr>key = 100, val = Str v1, occupied = True\<rparr>,
       \<lparr>key = 200, val = Str v2, occupied = True\<rparr>,
       \<lparr>key = 300, val = Str v3, occupied = True\<rparr>]"
    by (simp add: three_sample_eq replicate_16 live_def empty_entry_def DELETED_KEY_def)
  show ?thesis
    using assms
    by (simp add: kvs_save_to_file_def s f Let_def ht_size_def save_record_def
        kvs_header_def encode_record_def unat_value_len
        kvs_clear_error_def kvs_set_error_def env0_def)
       (simp add: three_sample_eq)
qed

section \<open>Counters while a table is rebuilt\<close>

lemma filter_update_count:
  "i < length xs \<Longrightarrow>
   length (filter P (xs[i := x])) + (if P (xs ! i) then 1 else 0)
     = length (filter P xs) + (if P x then 1 else 0)"
proof (induction xs arbitrary: i)
  case Nil
  then show ?case by simp
next
  case (Cons y ys)
  show ?case
  proof (cases i)
    case 0
    then show ?thesis by simp
  next
    case (Suc j)
    with Cons.prems have "j < length ys" by simp
    from Cons.IH [OF this] Suc show ?thesis by simp
  qed
qed

lemma ht_set_no_resize:
  "\<not> load_factor_reached t \<Longrightarrow> k \<noteq> DELETED_KEY \<Longrightarrow>
   ht_set eob t s k (Some v) = ht_set_store eob t s k v"
  by (simp add: ht_set.simps)

lemma ht_set_store_fresh:
  assumes f: "fresh_inv t" and nk: "k \<noteq> DELETED_KEY"
    and st: "ht_set_store eob t s k v = (True, t1, s1)"
  shows "fresh_inv t1 \<and> capacity t1 = capacity t \<and> occ_count t1 \<le> occ_count t + 1"
proof -
  have inv: "ht_inv t" using f by (simp add: fresh_inv_def)
  have len: "length (entries t) = unat (capacity t)" using inv by (simp add: ht_inv_def wf_def)
  from st obtain i where fs: "find_slot t k True = Some i"
    by (auto simp: ht_set_store_def split: option.splits)
  note fi = find_slot_insert_inv [OF inv fs]
  let ?e = "\<lparr>key = k, val = Str v, occupied = True\<rparr>"
  from st fs have t1: "t1 = t\<lparr>entries := (entries t)[i := ?e],
      tombstones := (if occupied (entries t ! i) \<and> key (entries t ! i) = k
                        \<and> key (entries t ! i) \<noteq> DELETED_KEY
                     then tombstones t - 1 else tombstones t),
      size := size t + 1\<rparr>"
    by (auto simp: ht_set_store_def Let_def split: prod.splits if_splits)
  have inv1: "ht_inv t1" using ht_set_store_inv [OF inv nk, of eob s v] st by simp
  have cap: "capacity t1 = capacity t" by (simp add: t1)
  have il: "i < length (entries t)" using fi(1) len by simp
  have cnt: "length (filter occupied (entries t1)) + (if occupied (entries t ! i) then 1 else 0)
      = occ_count t + 1"
    using filter_update_count [OF il, of occupied ?e] by (simp add: t1 occ_count_def)
  have nt: "\<forall>j<unat (capacity t1). occupied (entries t1 ! j) \<longrightarrow> live (entries t1 ! j)"
  proof (intro allI impI)
    fix j assume j: "j < unat (capacity t1)" and o: "occupied (entries t1 ! j)"
    show "live (entries t1 ! j)"
    proof (cases "j = i")
      case True
      then show ?thesis using il nk by (simp add: t1 live_def)
    next
      case False
      then show ?thesis using f j o by (simp add: t1 fresh_inv_def)
    qed
  qed
  show ?thesis
  proof (cases "occupied (entries t ! i)")
    case True
    with f fi(1) have "live (entries t ! i)" by (simp add: fresh_inv_def)
    with fi(2) have "hit k (entries t ! i)" by auto
    then have h: "occupied (entries t ! i) \<and> key (entries t ! i) = k
        \<and> key (entries t ! i) \<noteq> DELETED_KEY"
      by (auto simp: hit_def live_def)
    then have "size t1 + tombstones t1 = size t + tombstones t" using nk by (simp add: t1)
    moreover have "occ_count t1 = occ_count t" using cnt True by (simp add: occ_count_def)
    ultimately have "unat (size t1 + tombstones t1) = occ_count t1"
      using f by (simp add: fresh_inv_def)
    then show ?thesis using inv1 nt cap \<open>occ_count t1 = occ_count t\<close>
      by (simp add: fresh_inv_def)
  next
    case False
    then have s: "size t1 + tombstones t1 = (size t + tombstones t) + 1" by (simp add: t1)
    have o1: "occ_count t1 = occ_count t + 1" using cnt False by (simp add: occ_count_def)
    have "occ_count t1 \<le> length (entries t1)" by (simp add: occ_count_def)
    also have "\<dots> = unat (capacity t)" using len by (simp add: t1)
    also have "\<dots> < 2 ^ 64" using unsigned_less [of "capacity t"] by simp
    finally have "occ_count t + 1 < 2 ^ 64" using o1 by simp
    then have "unat (size t + tombstones t) + 1 < 2 ^ 64" using f by (simp add: fresh_inv_def)
    then have "unat ((size t + tombstones t) + 1) = unat (size t + tombstones t) + 1"
      by (simp add: unat_add_lem [THEN iffD1])
    then have "unat (size t1 + tombstones t1) = occ_count t1"
      using s o1 f by (simp add: fresh_inv_def)
    then show ?thesis using inv1 nt cap o1 by (simp add: fresh_inv_def)
  qed
qed

lemma live_count_drop:
  "i < length es \<Longrightarrow>
   live_count (drop i es) = (if live (es ! i) then 1 else 0) + live_count (drop (Suc i) es)"
  by (simp add: live_count_def Cons_nth_drop_Suc [symmetric])

lemma reinsert_fresh:
  assumes "fresh_inv t" and "length old = unat oc"
    and "occ_count t + live_count (drop i old) \<le> unat oc"
    and "2 * unat oc \<le> unat (capacity t)"
    and "reinsert eob old oc i t s = (True, t', s')"
  shows "fresh_inv t' \<and> capacity t' = capacity t
         \<and> occ_count t' \<le> occ_count t + live_count (drop i old)"
  using assms
proof (induction "unat oc - i" arbitrary: i old t s)
  case 0
  then have "\<not> i < unat oc" by simp
  with "0.prems"(5) have "t' = t" by (simp add: reinsert.simps)
  with "0.prems"(1) show ?case by simp
next
  case (Suc n)
  then have il: "i < unat oc" by simp
  define e where "e = old ! i"
  define old' where "old' = old[i := e\<lparr>val := free (val e)\<rparr>]"
  have unf: "reinsert eob old oc i t s =
      (if occupied e \<and> key e \<noteq> DELETED_KEY then
         (case ht_set eob t s (key e) (pointee (val e)) of
            (ok, t1, s1) \<Rightarrow>
              if \<not> ok then (False, t1\<lparr>entries := old, capacity := oc\<rparr>, s1)
              else reinsert eob old' oc (i + 1) t1 s1)
       else reinsert eob old' oc (i + 1) t s)"
    unfolding e_def old'_def using il by (subst reinsert.simps) (simp add: Let_def)
  have len': "length old' = unat oc" using Suc.prems(2) by (simp add: old'_def)
  have n: "n = unat oc - (i + 1)" using Suc.hyps(2) by simp
  have dr: "live_count (drop (i + 1) old') = live_count (drop (i + 1) old)"
    by (simp add: old'_def)
  have lc: "live_count (drop i old)
      = (if live e then 1 else 0) + live_count (drop (i + 1) old)"
    using live_count_drop [of i old] il Suc.prems(2) by (simp add: e_def)
  show ?case
  proof (cases "occupied e \<and> key e \<noteq> DELETED_KEY")
    case False
    then have nl: "\<not> live e" by (simp add: live_def)
    from False Suc.prems(5) have r: "reinsert eob old' oc (i + 1) t s = (True, t', s')"
      by (auto simp: unf)
    from Suc.hyps(1) [OF n Suc.prems(1) len' _ Suc.prems(4) r] Suc.prems(3) lc nl dr
    show ?thesis by simp
  next
    case True
    then have le: "live e" by (simp add: live_def)
    have inv: "ht_inv t" using Suc.prems(1) by (simp add: fresh_inv_def)
    then have cpos: "0 < unat (capacity t)" by (simp add: ht_inv_def wf_def)
    have occ: "unat (size t + tombstones t) = occ_count t"
      using Suc.prems(1) by (simp add: fresh_inv_def)
    have "occ_count t < unat oc" using Suc.prems(3) lc le by simp
    moreover have "capacity t \<noteq> 0" using cpos by (simp add: unat_gt_0)
    ultimately have nr: "\<not> load_factor_reached t"
      using Suc.prems(4) occ by (simp add: load_factor_reached_def)
    obtain ok t1 s1 where h: "ht_set eob t s (key e) (pointee (val e)) = (ok, t1, s1)"
      by (cases "ht_set eob t s (key e) (pointee (val e))") auto
    with True Suc.prems(5) have ok: "ok" and r: "reinsert eob old' oc (i + 1) t1 s1 = (True, t', s')"
      by (auto simp: unf split: if_splits)
    obtain v where v: "pointee (val e) = Some v"
      using h ok by (cases "pointee (val e)") (auto simp: ht_set.simps)
    from h ok True have st: "ht_set_store eob t s (key e) v = (True, t1, s1)"
      by (simp add: v ht_set_no_resize [OF nr])
    from ht_set_store_fresh [OF Suc.prems(1) _ st] True
    have f1: "fresh_inv t1" and c1: "capacity t1 = capacity t"
      and o1: "occ_count t1 \<le> occ_count t + 1" by simp_all
    have b: "occ_count t1 + live_count (drop (i + 1) old') \<le> unat oc"
      using o1 Suc.prems(3) lc le dr by simp
    from Suc.hyps(1) [OF n f1 len' b _ r] Suc.prems(4) c1 o1 lc le dr
    show ?thesis by simp
  qed
qed

lemma twice_capacity:
  assumes "\<not> c * 2 \<le> (c :: 64 word)"
  shows "unat (c * 2) = 2 * unat c"
proof (rule ccontr)
  assume a: "unat (c * 2) \<noteq> 2 * unat c"
  have c: "unat c < 2 ^ 64" using unsigned_less [of c] by simp
  have "unat (c * 2) = (unat c * 2) mod 2 ^ 64" by (simp add: unat_word_ariths)
  with a have ge: "2 ^ 64 \<le> unat c * 2" by (cases "unat c * 2 < 2 ^ 64") auto
  then have "(unat c * 2) mod 2 ^ 64 = unat c * 2 - 2 ^ 64"
    using c by (simp add: mod_if)
  then have "unat (c * 2) \<le> unat c"
    using c \<open>unat (c * 2) = (unat c * 2) mod 2 ^ 64\<close> by simp
  with assms show False by (simp add: word_le_nat_alt)
qed

lemma resize_table_fresh:
  assumes inv: "ht_inv t" and r: "resize_table eob t s (capacity t * 2) = (True, t1, s1)"
  shows "fresh_inv t1 \<and> capacity t1 = capacity t * 2
         \<and> unat (capacity t1) = 2 * unat (capacity t)
         \<and> unat (size t1 + tombstones t1) \<le> unat (capacity t)"
proof -
  let ?nc = "capacity t * 2"
  let ?new = "t\<lparr>entries := replicate (unat ?nc) empty_entry, capacity := ?nc,
                 size := 0, tombstones := 0\<rparr>"
  from r have g: "\<not> ?nc \<le> capacity t"
    by (auto simp: resize_table.simps split: if_splits)
  obtain ok s0 where a: "alloc s = (ok, s0)" by (cases "alloc s") auto
  with r g have ok: "ok" and ri: "reinsert eob (entries t) (capacity t) 0 ?new s0 = (True, t1, s1)"
    by (auto simp: resize_table.simps split: if_splits)
  have u: "unat ?nc = 2 * unat (capacity t)" using g by (rule twice_capacity)
  have "?nc \<noteq> 0" using g by auto
  then have "ht_inv (new_table ?nc)" by (rule ht_inv_new_table)
  then have n: "ht_inv ?new"
    by (subst ht_inv_cong [of _ "new_table ?nc"]) (simp_all add: new_table_def)
  have f: "fresh_inv ?new"
    using n by (simp add: fresh_inv_def occ_count_def empty_entry_def)
  have len: "length (entries t) = unat (capacity t)"
    using inv by (simp add: ht_inv_def wf_def)
  have lc: "live_count (entries t) \<le> unat (capacity t)"
    using len [symmetric] by (simp add: live_count_def)
  have b: "occ_count ?new + live_count (drop 0 (entries t)) \<le> unat (capacity t)"
    using lc by (simp add: occ_count_def empty_entry_def)
  have c: "2 * unat (capacity t) \<le> unat (capacity ?new)" using u by simp
  from reinsert_fresh [OF f len b c ri]
  have f1: "fresh_inv t1" and c1: "capacity t1 = ?nc"
    and o1: "occ_count t1 \<le> occ_count ?new + live_count (drop 0 (entries t))" by simp_all
  have "unat (size t1 + tombstones t1) = occ_count t1" using f1 by (simp add: fresh_inv_def)
  with o1 b have "unat (size t1 + tombstones t1) \<le> unat (capacity t)" by simp
  with f1 c1 u show ?thesis by simp
qed

lemma find_slot_insert_present:
  assumes inv: "ht_inv t" and i: "i < unat (capacity t)" and h: "hit k (entries t ! i)"
  shows "find_slot t k True = Some i"
proof (cases "find_slot t k True")
  case None
  have c: "capacity t \<noteq> 0" using i by auto
  from slot_at_surj [OF i, of k] obtain d where d: "d < unat (capacity t)" "slot_at t k d = i"
    by blast
  from find_slot_insert [of t k] None c have "clear_to t k (unat (capacity t))" by simp
  with d h show ?thesis by (auto simp: clear_to_def entry_at_def)
next
  case (Some j)
  note fi = find_slot_insert_inv [OF inv Some]
  from fi(2) h i have hj: "hit k (entries t ! j)" by (auto simp: absent_def)
  with h i fi(1) inv have "i = j" unfolding ht_inv_def uniq_def hit_def by blast
  with Some show ?thesis by simp
qed

lemma absent_by_set:
  "length (entries t) = unat (capacity t) \<Longrightarrow> \<forall>e\<in>set (entries t). \<not> hit k e \<Longrightarrow> absent t k"
  by (simp add: absent_def)

section \<open>Evaluation of the small tables\<close>

lemma once42_eq:
  "once42 = \<lparr>entries = (replicate 16 empty_entry)
                [15 := \<lparr>key = 42, val = Str ''hello world'', occupied = True\<rparr>],
             capacity = 16, size = 1, tombstones = 0\<rparr>"
  by (simp add: once42_def eval_simps)

lemma twice42_eq:
  "twice42 = \<lparr>entries = (replicate 16 empty_entry)
                [15 := \<lparr>key = 42, val = Str ''goodbye world'', occupied = True\<rparr>],
             capacity = 16, size = 2, tombstones = - 1\<rparr>"
  by (simp add: twice42_def once42_eq eval_simps)

lemma reuse_sample_eq:
  "reuse_sample = \<lparr>entries = (replicate 16 empty_entry)
                [15 := \<lparr>key = 10, val = Str ''ten again'', occupied = True\<rparr>],
             capacity = 16, size = 1, tombstones = 1\<rparr>"
  by (simp add: reuse_sample_def eval_simps)

lemma replicate_4: "replicate 4 x = [x, x, x, x]"
  by (simp add: eval_nat_numeral)

lemma replicate_8: "replicate 8 x = [x, x, x, x, x, x, x, x]"
  by (simp add: eval_nat_numeral)

lemma two4_eq:
  "two4 = \<lparr>entries = [\<lparr>key = 1, val = Str ''a'', occupied = True\<rparr>, empty_entry, empty_entry,
                       \<lparr>key = 2, val = Str ''b'', occupied = True\<rparr>],
           capacity = 4, size = 2, tombstones = 0\<rparr>"
  by (simp add: two4_def eval_simps replicate_4)

lemma three4_eq:
  "three4 = \<lparr>entries = [\<lparr>key = 1, val = Str ''a'', occupied = True\<rparr>, empty_entry,
                         \<lparr>key = 3, val = Str ''c'', occupied = True\<rparr>,
                         \<lparr>key = 2, val = Str ''b'', occupied = True\<rparr>],
             capacity = 4, size = 3, tombstones = 0\<rparr>"
  by (simp add: three4_def two4_eq eval_simps)

lemmas resize_simps = resize_table.simps reinsert.simps [of _ _ _ 0]
  reinsert.simps [of _ _ _ "Suc n" for n] reinsert.simps [of _ _ _ "numeral n" for n]

lemma four8_eq:
  "four8 = \<lparr>entries = [empty_entry, \<lparr>key = 4, val = Str ''d'', occupied = True\<rparr>,
                        empty_entry, empty_entry,
                        \<lparr>key = 1, val = Str ''a'', occupied = True\<rparr>, empty_entry,
                        \<lparr>key = 3, val = Str ''c'', occupied = True\<rparr>,
                        \<lparr>key = 2, val = Str ''b'', occupied = True\<rparr>],
            capacity = 8, size = 4, tombstones = 0\<rparr>"
  by (simp add: four8_def three4_eq eval_simps resize_simps replicate_8)

section \<open>Saving a table and loading three records\<close>

lemma distinct_map_filter_nth:
  assumes "\<forall>i<length xs. \<forall>j<length xs. P (xs ! i) \<longrightarrow> P (xs ! j) \<longrightarrow> f (xs ! i) = f (xs ! j) \<longrightarrow> i = j"
  shows "distinct (map f (filter P xs))"
  using assms
proof (induction xs)
  case Nil
  then show ?case by simp
next
  case (Cons x xs)
  have "\<forall>i<length xs. \<forall>j<length xs. P (xs ! i) \<longrightarrow> P (xs ! j) \<longrightarrow> f (xs ! i) = f (xs ! j) \<longrightarrow> i = j"
  proof (intro allI impI)
    fix i j assume "i < length xs" "j < length xs" "P (xs ! i)" "P (xs ! j)" "f (xs ! i) = f (xs ! j)"
    then show "i = j" using Cons.prems [rule_format, of "Suc i" "Suc j"] by simp
  qed
  then have IH: "distinct (map f (filter P xs))" by (rule Cons.IH)
  have "f x \<notin> f ` set (filter P xs)" if px: "P x"
  proof
    assume "f x \<in> f ` set (filter P xs)"
    then obtain y where y: "y \<in> set xs" "P y" "f y = f x" by auto
    then obtain j where j: "j < length xs" "xs ! j = y" by (auto simp: in_set_conv_nth)
    from Cons.prems [rule_format, of 0 "Suc j"] px y j show False by simp
  qed
  with IH show ?case by simp
qed

lemma ht_contents_distinct:
  assumes "ht_inv t"
  shows "distinct (map fst (ht_contents t))"
proof -
  have len: "length (entries t) = unat (capacity t)" using assms by (simp add: ht_inv_def wf_def)
  have "distinct (map key (filter live (entries t)))"
    using assms by (intro distinct_map_filter_nth) (simp add: ht_inv_def uniq_def len)
  then show ?thesis by (simp add: ht_contents_def comp_def)
qed

lemma three_elems: "length xs = 3 \<Longrightarrow> \<exists>a b c. xs = [a, b, c]"
  by (auto simp: eval_nat_numeral length_Suc_conv)

lemma save_record_encode:
  "length (chars (val e)) \<le> 100000 \<Longrightarrow> save_record e = encode_record (key e, chars (val e))"
  by (simp add: save_record_def encode_record_def unat_value_len)

lemma kvs_save_bytes:
  assumes "ht_inv t" and "\<forall>r\<in>set (ht_contents t). length (chars (snd r)) \<le> 100000"
  shows "kvs_save_to_file t s =
     (True,
      kvs_header (ucast (size t))
        @ concat (map (\<lambda>r. encode_record (fst r, chars (snd r))) (ht_contents t)),
      kvs_clear_error s)"
proof -
  have len: "length (entries t) = unat (capacity t)" using assms by (simp add: ht_inv_def wf_def)
  have "map save_record (filter live (entries t))
      = map (\<lambda>r. encode_record (fst r, chars (snd r))) (ht_contents t)"
    using assms(2) by (simp add: ht_contents_def comp_def save_record_encode)
  then show ?thesis
    by (simp add: kvs_save_to_file_def Let_def save_entries_eq [OF len] ht_size_def)
qed

lemma ht_set_free_home:
  assumes "capacity t \<noteq> 0" and "\<not> load_factor_reached t" and "k \<noteq> DELETED_KEY"
    and "\<not> occupied (entries t ! (hash_key k mod unat (capacity t)))"
    and "alloc s = (True, s1)"
  shows "ht_set eob t s k (Some v) = (eob, place t k v, s1)"
proof -
  have c: "unat (capacity t) \<noteq> 0" using assms(1) by (simp add: unat_eq_zero)
  have "find_slot t k True = Some (hash_key k mod unat (capacity t))"
    using assms(1,4) c by (simp add: find_slot_def probe.simps [of t k True None] Let_def)
  then show ?thesis
    using assms by (simp add: ht_set_no_resize ht_set_store_def Let_def place_def)
qed

lemma ht_get_home:
  assumes "capacity t \<noteq> 0" and "k \<noteq> DELETED_KEY"
    and "entries t ! (hash_key k mod unat (capacity t)) = \<lparr>key = k, val = w, occupied = True\<rparr>"
  shows "ht_get t s k = (w, kvs_clear_error s)"
proof -
  have c: "unat (capacity t) \<noteq> 0" using assms(1) by (simp add: unat_eq_zero)
  have "find_slot t k False = Some (hash_key k mod unat (capacity t))"
    using assms c by (simp add: find_slot_def probe.simps [of t k False None] Let_def)
  then show ?thesis using assms by (simp add: ht_get_def Let_def)
qed


lemma env0_alloc: "alloc env0 = (True, env0)"
  by (simp add: alloc_def env0_def)

lemma env0_clear: "kvs_clear_error env0 = env0"
  by (simp add: kvs_clear_error_def kvs_set_error_def env0_def)

lemma load_three:
  assumes k: "ka \<noteq> DELETED_KEY" "kb \<noteq> DELETED_KEY" "kc \<noteq> DELETED_KEY"
    and h: "hash_key ka mod 16 \<noteq> hash_key kb mod 16" "hash_key ka mod 16 \<noteq> hash_key kc mod 16"
      "hash_key kb mod 16 \<noteq> hash_key kc mod 16"
    and l: "length va \<le> 100000" "length vb \<le> 100000" "length vc \<le> 100000"
    and z: "CHR 0x00 \<notin> set va" "CHR 0x00 \<notin> set vb" "CHR 0x00 \<notin> set vc"
  shows "load_entries eob n (new_table 16) env0
           (encode_record (ka, va) @ encode_record (kb, vb) @ encode_record (kc, vc)) =
     (if n = 0 then (True, new_table 16, env0)
      else if \<not> eob then (False, place (new_table 16) ka va, env0)
      else if n = 1 then (True, place (new_table 16) ka va, env0)
      else if n = 2 then (True, place (place (new_table 16) ka va) kb vb, env0)
      else if n = 3 then (True, place (place (place (new_table 16) ka va) kb vb) kc vc, env0)
      else (False, place (place (place (new_table 16) ka va) kb vb) kc vc,
              kvs_set_error KVS_ERROR_FILE_IO env0))"
proof -
  let ?T0 = "new_table 16"
  let ?T1 = "place ?T0 ka va"
  let ?T2 = "place ?T1 kb vb"
  let ?T3 = "place ?T2 kc vc"
  have ha: "hash_key ka mod 16 < 16" and hb: "hash_key kb mod 16 < 16"
    and hc: "hash_key kc mod 16 < 16" by simp_all
  have s1: "ht_set e ?T0 env0 ka (Some va) = (e, ?T1, env0)" for e
    using ha by (intro ht_set_free_home k env0_alloc)
      (simp_all add: new_table_def load_factor_reached_def empty_entry_def)
  have s2: "ht_set e ?T1 env0 kb (Some vb) = (e, ?T2, env0)" for e
    using ha hb h by (intro ht_set_free_home k env0_alloc)
      (simp_all add: new_table_def load_factor_reached_def empty_entry_def place_def)
  have s3: "ht_set e ?T2 env0 kc (Some vc) = (e, ?T3, env0)" for e
    using ha hb hc h by (intro ht_set_free_home k env0_alloc)
      (simp_all add: new_table_def load_factor_reached_def empty_entry_def place_def)
  consider "n = 0" | "n = Suc 0" | "n = Suc (Suc 0)" | "n = Suc (Suc (Suc 0))"
    | m where "n = Suc (Suc (Suc (Suc m)))"
    by (metis not0_implies_Suc)
  then show ?thesis
  proof cases
    case 1
    then show ?thesis by (simp add: env0_clear)
  next
    case 2
    show ?thesis
      unfolding 2
      by (simp add: load_entries_record l z c_str_id env0_alloc s1 env0_clear
          del: load_entries.simps(2))
  next
    case 3
    show ?thesis
      unfolding 3
      by (simp add: load_entries_record l z c_str_id env0_alloc s1 s2 env0_clear
          del: load_entries.simps(2))
  next
    case 4
    show ?thesis
      unfolding 4
      by (simp add: load_entries_record load_entries_last l z c_str_id env0_alloc s1 s2 s3
          env0_clear del: load_entries.simps(2))
  next
    case 5
    have e: "load_entries b (Suc m) ?T3 env0 [] = (False, ?T3, kvs_set_error KVS_ERROR_FILE_IO env0)"
      for b by simp
    show ?thesis
      unfolding 5
      by (simp add: load_entries_record load_entries_last l z c_str_id env0_alloc s1 s2 s3
          env0_clear e del: load_entries.simps(2))
  qed
qed

lemma place_three:
  assumes k: "ka \<noteq> DELETED_KEY" "kb \<noteq> DELETED_KEY" "kc \<noteq> DELETED_KEY"
    and h: "hash_key ka mod 16 \<noteq> hash_key kb mod 16" "hash_key ka mod 16 \<noteq> hash_key kc mod 16"
      "hash_key kb mod 16 \<noteq> hash_key kc mod 16"
  shows "ht_size (place (new_table 16) ka va) = 1"
    and "ht_size (place (place (new_table 16) ka va) kb vb) = 2"
    and "ht_size (place (place (place (new_table 16) ka va) kb vb) kc vc) = 3"
    and "ht_get (place (place (place (new_table 16) ka va) kb vb) kc vc) env0 ka = (Str va, env0)"
    and "ht_get (place (place (place (new_table 16) ka va) kb vb) kc vc) env0 kb = (Str vb, env0)"
    and "ht_get (place (place (place (new_table 16) ka va) kb vb) kc vc) env0 kc = (Str vc, env0)"
proof -
  have ha: "hash_key ka mod 16 < 16" and hb: "hash_key kb mod 16 < 16"
    and hc: "hash_key kc mod 16 < 16" by simp_all
  show "ht_size (place (new_table 16) ka va) = 1"
    and "ht_size (place (place (new_table 16) ka va) kb vb) = 2"
    and "ht_size (place (place (place (new_table 16) ka va) kb vb) kc vc) = 3"
    by (simp_all add: ht_size_def place_def new_table_def)
  show "ht_get (place (place (place (new_table 16) ka va) kb vb) kc vc) env0 ka = (Str va, env0)"
    using ha hb hc h
    by (subst ht_get_home [where w = "Str va"]) (simp_all add: k place_def new_table_def env0_clear)
  show "ht_get (place (place (place (new_table 16) ka va) kb vb) kc vc) env0 kb = (Str vb, env0)"
    using ha hb hc h
    by (subst ht_get_home [where w = "Str vb"]) (simp_all add: k place_def new_table_def env0_clear)
  show "ht_get (place (place (place (new_table 16) ka va) kb vb) kc vc) env0 kc = (Str vc, env0)"
    using ha hb hc h
    by (subst ht_get_home [where w = "Str vc"]) (simp_all add: k place_def new_table_def env0_clear)
qed

lemma sample_homes:
  "hash_key 100 mod 16 = 1" "hash_key 200 mod 16 = 13" "hash_key 300 mod 16 = 14"
  by (simp_all add: hash_key_def key_bytes_def)

lemma sample_keys:
  "(100 :: 32 word) \<noteq> DELETED_KEY" "(200 :: 32 word) \<noteq> DELETED_KEY"
  "(300 :: 32 word) \<noteq> DELETED_KEY"
  by (simp_all add: DELETED_KEY_def)

lemma again_sample_eq:
  "again_sample =
     \<lparr>entries = (replicate 16 empty_entry)
        [1 := \<lparr>key = 100, val = Str ''one hundred'', occupied = True\<rparr>,
         13 := \<lparr>key = 200, val = Str ''two hundred'', occupied = True\<rparr>,
         14 := \<lparr>key = 300, val = Str ''three hundred'', occupied = True\<rparr>],
      capacity = 16, size = 4, tombstones = - 1\<rparr>"
  by (simp add: again_sample_def eval_simps)

lemma again_sample_reachable: "reachable again_sample"
  unfolding again_sample_def by (intro reachable_set reachable_new_table)

lemma three_sample_reachable: "reachable (three_sample v1 v2 v3)"
  unfolding three_sample_def by (intro reachable_set reachable_new_table)

lemma three_sample_contents:
  "ht_contents (three_sample v1 v2 v3) = [(100, Str v1), (200, Str v2), (300, Str v3)]"
  by (simp add: ht_contents_def three_sample_eq replicate_16 live_def empty_entry_def
      DELETED_KEY_def)

lemma again_sample_contents:
  "ht_contents again_sample =
     [(100, Str ''one hundred''), (200, Str ''two hundred''), (300, Str ''three hundred'')]"
  by (simp add: ht_contents_def again_sample_eq replicate_16 live_def empty_entry_def
      DELETED_KEY_def)

lemma three_sample_load_stops:
  assumes "length v1 \<le> 100000" "length v2 \<le> 100000" "length v3 \<le> 100000"
    and "CHR 0x00 \<notin> set v1" "CHR 0x00 \<notin> set v2" "CHR 0x00 \<notin> set v3"
  shows "kvs_load_from_file False (new_table 16) env0
           (fst (snd (kvs_save_to_file (three_sample v1 v2 v3) env0)))
         = (False, place (new_table 16) 100 v1, env0)"
  using load_three [OF sample_keys _ _ _ assms, of False "unat (3 :: 32 word)"]
  by (simp add: three_sample_saved assms load_header sample_homes)

lemma place_first_only:
  "ht_size (place (new_table 16) 100 v1) = 1"
  "ht_get (place (new_table 16) 100 v1) env0 100 = (Str v1, env0)"
  "ht_get (place (new_table 16) 100 v1) env0 200
     = (Null, kvs_set_error KVS_ERROR_KEY_NOT_FOUND env0)"
  "ht_get (place (new_table 16) 100 v1) env0 300
     = (Null, kvs_set_error KVS_ERROR_KEY_NOT_FOUND env0)"
  by (simp_all add: place_def ht_size_def eval_simps)

lemma again_sample_load_fails:
  "kvs_save_to_file again_sample env0 =
     (True,
      kvs_header 4 @ encode_record (100, ''one hundred'') @ encode_record (200, ''two hundred'')
        @ encode_record (300, ''three hundred''),
      env0)"
  "fst (kvs_load_from_file True (new_table 16) env0
          (fst (snd (kvs_save_to_file again_sample env0)))) = False"
  "global_error (snd (snd (kvs_load_from_file True (new_table 16) env0
          (fst (snd (kvs_save_to_file again_sample env0)))))) = KVS_ERROR_FILE_IO"
proof -
  show s: "kvs_save_to_file again_sample env0 =
     (True,
      kvs_header 4 @ encode_record (100, ''one hundred'') @ encode_record (200, ''two hundred'')
        @ encode_record (300, ''three hundred''),
      env0)"
    using kvs_save_bytes [OF reachable_inv [OF again_sample_reachable], of env0]
    by (simp add: again_sample_contents env0_clear) (simp add: again_sample_eq)
  have l: "kvs_load_from_file True (new_table 16) env0
          (fst (snd (kvs_save_to_file again_sample env0)))
      = (False,
         place (place (place (new_table 16) 100 ''one hundred'') 200 ''two hundred'')
           300 ''three hundred'',
         kvs_set_error KVS_ERROR_FILE_IO env0)"
    using load_three [OF sample_keys, of "''one hundred''" "''two hundred''" "''three hundred''"
        True "unat (4 :: 32 word)"]
    by (simp add: s load_header sample_homes)
  show "fst (kvs_load_from_file True (new_table 16) env0
          (fst (snd (kvs_save_to_file again_sample env0)))) = False"
    by (simp add: l)
  show "global_error (snd (snd (kvs_load_from_file True (new_table 16) env0
          (fst (snd (kvs_save_to_file again_sample env0)))))) = KVS_ERROR_FILE_IO"
    by (simp add: l kvs_set_error_def)
qed

section \<open>Overwriting a key\<close>

text \<open>
  C1. What the code does when a key that is already in the table is set again (no resize
  due, the value copy allocated): the value is replaced, so that \<^verbatim>\<open>ht_get\<close> returns the new
  value, but \<open>size\<close> is incremented and \<open>tombstones\<close> is decremented. The size reported
  after the second set is therefore one more than before it, where the specification says
  it is unchanged. In the witness, key 42 is set twice in a fresh table: \<^verbatim>\<open>ht_size\<close> is 1, then 2,
  and \<open>tombstones\<close> wraps around to \<open>2 ^ 64 - 1\<close>.
\<close>

theorem overwrite_adds_to_size:
  assumes "ht_inv t" and "i < unat (capacity t)"
    and "occupied (entries t ! i)" and "key (entries t ! i) = k" and "k \<noteq> DELETED_KEY"
    and "\<not> load_factor_reached t" and "alloc s = (True, s1)"
  shows "\<exists>t'. ht_set eob t s k (Some v) = (eob, t', s1)
            \<and> ht_get t' s' k = (Str v, kvs_clear_error s')
            \<and> ht_size t' = ht_size t + 1 \<and> tombstones t' = tombstones t - 1"
proof -
  let ?t' = "t\<lparr>entries := (entries t)[i := \<lparr>key = k, val = Str v, occupied = True\<rparr>],
               tombstones := tombstones t - 1, size := size t + 1\<rparr>"
  have "hit k (entries t ! i)" using assms(3,4,5) by (simp add: hit_def live_def)
  then have "find_slot t k True = Some i"
    using assms(1,2) by (intro find_slot_insert_present)
  then have e: "ht_set eob t s k (Some v) = (eob, ?t', s1)"
    using assms(3-7) by (simp add: ht_set_no_resize ht_set_store_def)
  have inv: "ht_inv ?t'" using inv_preserved(1) [OF assms(1), of eob s k "Some v"] e by simp
  have len: "length (entries t) = unat (capacity t)" using assms(1) by (simp add: ht_inv_def wf_def)
  have n: "entries ?t' ! i = \<lparr>key = k, val = Str v, occupied = True\<rparr>"
    using assms(2) len by simp
  then have "hit k (entries ?t' ! i)" using assms(5) by (simp add: hit_def live_def)
  then have "find_slot ?t' k False = Some i"
    using inv assms(2) by (intro find_slot_lookup_present) simp_all
  then have "ht_get ?t' s' k = (Str v, kvs_clear_error s')"
    using n assms(5) by (simp add: ht_get_def)
  with e show ?thesis by (intro exI [of _ ?t']) (simp add: ht_size_def)
qed

theorem overwrite_adds_to_size_witness:
  "ht_set True (new_table 16) env0 42 (Some ''hello world'') = (True, once42, env0)
   \<and> ht_set True once42 env0 42 (Some ''goodbye world'') = (True, twice42, env0)
   \<and> ht_get twice42 env0 42 = (Str ''goodbye world'', env0)
   \<and> ht_size once42 = 1 \<and> ht_size twice42 = 2 \<and> tombstones twice42 = - 1"
proof -
  have r: "reachable once42" unfolding once42_def by (intro reachable_set reachable_new_table)
  have e: "entries once42 ! 15 = \<lparr>key = 42, val = Str ''hello world'', occupied = True\<rparr>"
    "capacity once42 = 16" "\<not> load_factor_reached once42"
    by (simp_all add: once42_eq load_factor_reached_def)
  have a: "alloc env0 = (True, env0)" by (simp add: alloc_def env0_def)
  have f: "ht_set True (new_table 16) env0 42 (Some ''hello world'') = (True, once42, env0)"
    by (simp add: once42_eq) (simp add: eval_simps)
  have t: "twice42 = fst (snd (ht_set True once42 env0 42 (Some ''goodbye world'')))"
    by (simp add: twice42_def)
  have c: "kvs_clear_error env0 = env0"
    by (simp add: kvs_clear_error_def kvs_set_error_def env0_def)
  from overwrite_adds_to_size [OF reachable_inv [OF r], of 15 42 env0 env0 True
      "''goodbye world''" env0] e a
  obtain t' where "ht_set True once42 env0 42 (Some ''goodbye world'') = (True, t', env0)"
    "ht_get t' env0 42 = (Str ''goodbye world'', kvs_clear_error env0)"
    "ht_size t' = ht_size once42 + 1" "tombstones t' = tombstones once42 - 1"
    by (auto simp: DELETED_KEY_def)
  then show ?thesis using f t c by (simp add: once42_eq ht_size_def)
qed

section \<open>The counters and the slots\<close>

text \<open>
  C2. Two tables built through the interface whose counters are not the numbers of slots
  the specification says they are. After key 42 has been set twice, \<open>size\<close> is 2 with one live slot
  and \<open>tombstones\<close> is \<open>2 ^ 64 - 1\<close> with no tombstone. After key 10 has been set, deleted
  and set again, the set has landed on the tombstone, yet \<open>tombstones\<close> is still 1 with no
  tombstone left.
\<close>

theorem counters_diverge:
  "reachable twice42 \<and> unat (size twice42) = 2 \<and> live_count (entries twice42) = 1
   \<and> unat (tombstones twice42) = 2 ^ 64 - 1 \<and> tomb_count (entries twice42) = 0
   \<and> reachable reuse_sample \<and> unat (tombstones reuse_sample) = 1
   \<and> tomb_count (entries reuse_sample) = 0"
proof -
  have "reachable twice42"
    unfolding twice42_def once42_def by (intro reachable_set reachable_new_table)
  moreover have "reachable reuse_sample"
    unfolding reuse_sample_def by (intro reachable_set reachable_delete reachable_new_table)
  moreover have "live_count (entries twice42) = 1" "tomb_count (entries twice42) = 0"
    by (simp_all add: twice42_eq live_count_def tomb_count_def replicate_16 live_def
        empty_entry_def DELETED_KEY_def)
  moreover have "tomb_count (entries reuse_sample) = 0"
    by (simp add: reuse_sample_eq tomb_count_def replicate_16 empty_entry_def DELETED_KEY_def)
  moreover have "unat (tombstones twice42) = 2 ^ 64 - 1"
    by (simp add: twice42_eq unsigned_minus_1_eq_mask mask_eq_exp_minus_1)
  ultimately show ?thesis by (simp add: twice42_eq reuse_sample_eq)
qed

theorem counters_diverge_witness:
  "unat (size twice42) \<noteq> live_count (entries twice42)
   \<and> unat (tombstones reuse_sample) \<noteq> tomb_count (entries reuse_sample)"
  using counters_diverge by simp

section \<open>The load factor test\<close>

text \<open>
  C3, as stated, fails. In a table of 4 slots holding 2 keys the projected load factor
  \<open>(2 + 0 + 1) / 4\<close> reaches 0.75, yet setting a third key does not grow the table, and
  after it the load factor \<open>3 / 4\<close> is not below 0.75.
\<close>

theorem load_after_insert_counterexample:
  "reachable two4 \<and> absent two4 3
   \<and> ht_set True two4 env0 3 (Some ''c'') = (True, three4, env0)
   \<and> 3 * unat (capacity two4) \<le> 4 * (unat (size two4 + tombstones two4) + 1)
   \<and> capacity three4 = capacity two4
   \<and> \<not> 4 * unat (size three4 + tombstones three4) < 3 * unat (capacity three4)"
proof -
  have c: "ht_create 4 env0 = (Some (new_table 4), env0)"
    by (simp add: ht_create_def alloc_def env0_def Let_def
        kvs_clear_error_def kvs_set_error_def)
  have "reachable two4"
    unfolding two4_def by (intro reachable_set reachable.created [OF c])
  moreover have "absent two4 3"
    by (rule absent_by_set) (simp_all add: two4_eq hit_def live_def empty_entry_def)
  moreover have "ht_set True two4 env0 3 (Some ''c'') = (True, three4, env0)"
    by (simp add: three4_eq) (simp add: two4_eq eval_simps)
  ultimately show ?thesis by (simp add: two4_eq three4_eq)
qed

text \<open>
  C3, amended. Before placing an entry, \<^verbatim>\<open>ht_set\<close> tests the load factor of the table as
  it is, \<open>(size + tombstones) / capacity\<close>, the entry to come not counted. If it is 0.75 or
  more the table first grows to twice its capacity, otherwise the capacity stays.
  Consequently, after every successful set of a key that was not in the table,
  \<open>(size + tombstones - 1) / capacity\<close> is strictly below 0.75.
\<close>

theorem load_checked_before_insert:
  assumes "ht_inv t" and "absent t k" and "ht_set eob t s k (Some v) = (True, t', s')"
  shows "(load_factor_reached t \<longrightarrow> unat (capacity t') = 2 * unat (capacity t))
       \<and> (\<not> load_factor_reached t \<longrightarrow> capacity t' = capacity t)
       \<and> 4 * unat (size t' + tombstones t' - 1) < 3 * unat (capacity t')"
proof -
  have nk: "k \<noteq> DELETED_KEY" using assms(3) by (auto simp: ht_set.simps)
  have cpos: "0 < unat (capacity t)" using assms(1) by (simp add: ht_inv_def wf_def)
  then have cne: "capacity t \<noteq> 0" by (simp add: unat_gt_0)
  have store: "size t2 + tombstones t2 - 1 = size t1 + tombstones t1 \<and> capacity t2 = capacity t1"
    if "ht_inv t1" "absent t1 k" "ht_set_store eob t1 s1 k v = (True, t2, s2)" for t1 s1 t2 s2
  proof -
    from that(3) obtain i where fs: "find_slot t1 k True = Some i"
      by (auto simp: ht_set_store_def split: option.splits)
    from find_slot_insert_inv(1) [OF that(1) fs] that(2)
    have "\<not> hit k (entries t1 ! i)" by (simp add: absent_def)
    then have "\<not> (occupied (entries t1 ! i) \<and> key (entries t1 ! i) = k
        \<and> key (entries t1 ! i) \<noteq> DELETED_KEY)"
      by (auto simp: hit_def live_def)
    with that(3) fs show ?thesis
      by (auto simp: ht_set_store_def Let_def split: prod.splits if_splits)
  qed
  show ?thesis
  proof (cases "load_factor_reached t")
    case False
    with assms(3) nk have "ht_set_store eob t s k v = (True, t', s')"
      by (simp add: ht_set_no_resize)
    from store [OF assms(1,2) this] False cne show ?thesis
      by (simp add: load_factor_reached_def)
  next
    case True
    obtain ok t1 s1 where r: "resize_table eob t s (capacity t * 2) = (ok, t1, s1)"
      by (cases "resize_table eob t s (capacity t * 2)") auto
    with assms(3) nk True have ok: "ok" and st: "ht_set_store eob t1 s1 k v = (True, t', s')"
      by (auto simp: ht_set.simps split: if_splits)
    have r': "resize_table eob t s (capacity t * 2) = (True, t1, s1)" using r ok by simp
    note rf = resize_table_fresh [OF assms(1) r']
    have f1: "fresh_inv t1" and u: "unat (capacity t1) = 2 * unat (capacity t)"
      and b: "unat (size t1 + tombstones t1) \<le> unat (capacity t)"
      using rf by blast+
    have i1: "ht_inv t1" using f1 by (simp add: fresh_inv_def)
    have a1: "absent t1 k"
      using absent_preserved(2) [OF assms(1,2), of eob s "capacity t * 2"] r by simp
    from store [OF i1 a1 st] u b cpos True show ?thesis by simp
  qed
qed

theorem load_checked_before_insert_witness:
  "load_factor_reached three4 \<and> absent three4 4
   \<and> ht_set True three4 env0 4 (Some ''d'') = (True, four8, env0)
   \<and> unat (capacity four8) = 2 * unat (capacity three4)
   \<and> 4 * unat (size four8 + tombstones four8 - 1) < 3 * unat (capacity four8)"
proof -
  have c: "ht_create 4 env0 = (Some (new_table 4), env0)"
    by (simp add: ht_create_def alloc_def env0_def Let_def
        kvs_clear_error_def kvs_set_error_def)
  have "reachable three4"
    unfolding three4_def two4_def by (intro reachable_set reachable.created [OF c])
  then have inv: "ht_inv three4" by (rule reachable_inv)
  have a: "absent three4 4"
    by (rule absent_by_set) (simp_all add: three4_eq hit_def live_def empty_entry_def)
  have s: "ht_set True three4 env0 4 (Some ''d'') = (True, four8, env0)"
    by (simp add: four8_eq) (simp add: three4_eq eval_simps resize_simps replicate_8)
  have l: "load_factor_reached three4" by (simp add: three4_eq load_factor_reached_def)
  from load_checked_before_insert [OF inv a s] l a s show ?thesis by simp
qed

section \<open>A resize that fails\<close>

text \<open>
  C4. A resize that fails while re-inserting does not leave the table as it was. The table
  \<open>three4\<close> (capacity 4, size 3) is resized to 8 slots in a process state whose third
  allocation fails: the new array and the value copy of the first entry are allocated, the
  value copy of the second entry is not. \<^verbatim>\<open>resize_table\<close> returns false with the old array
  and the old capacity put back, but \<open>size\<close> is 1, the count of the abandoned rebuild, and
  the value of the entry already moved has been freed. \<^verbatim>\<open>ht_set\<close> of a fourth key reaches
  this resize and returns the same table.
\<close>

theorem failed_resize_not_restored:
  "size three4 = 3
   \<and> resize_table True three4 env_fail3 8 =
       (False,
        \<lparr>entries = [\<lparr>key = 1, val = Freed ''a'', occupied = True\<rparr>, empty_entry,
                    \<lparr>key = 3, val = Str ''c'', occupied = True\<rparr>,
                    \<lparr>key = 2, val = Str ''b'', occupied = True\<rparr>],
         capacity = 4, size = 1, tombstones = 0\<rparr>,
        \<lparr>global_error = KVS_ERROR_MEMORY, allocs = []\<rparr>)
   \<and> fst (snd (ht_set True three4 env_fail3 4 (Some ''d'')))
       = fst (snd (resize_table True three4 env_fail3 8))"
  by (simp add: three4_eq eval_simps resize_simps replicate_8 env_fail3_def)

theorem failed_resize_not_restored_witness:
  "fst (snd (resize_table True three4 env_fail3 8)) \<noteq> three4"
  using failed_resize_not_restored by (simp add: three4_eq)

section \<open>Round trip through the codec\<close>

text \<open>
  C5. Let a table built through the interface hold exactly the entries (100, v1), (200, v2)
  and (300, v3), the values without a NUL byte and of at most 100000 bytes. Saving it
  succeeds. Loading the saved bytes into a fresh table of default capacity reports success
  and gives a table of size 3 in which \<^verbatim>\<open>ht_get\<close> returns the three values exactly when
  both of the following hold: the value \<open>eob\<close> that the caller of \<^verbatim>\<open>ht_set\<close> reads where the
  function ends without a \<^verbatim>\<open>return\<close> statement is true, and the size field of the saved
  table, cut to 32 bits, is 3. The code ensures neither: \<^verbatim>\<open>ht_set\<close> falls off its end after
  \<^verbatim>\<open>table->size++\<close>, and the size field counts every overwrite (C1). The witness is the table
  of the persistence test, for which the round trip holds when \<open>eob\<close> is true and the load
  stops after the first record when it is false (size 1, keys 200 and 300 not found), and
  the table in which key 100 was set twice, whose file announces four records, so that the
  load ends with a file error.
\<close>

theorem codec_round_trip:
  assumes "reachable t"
    and "set (ht_contents t) = {(100, Str v1), (200, Str v2), (300, Str v3)}"
    and "length v1 \<le> 100000" "length v2 \<le> 100000" "length v3 \<le> 100000"
    and "CHR 0x00 \<notin> set v1" "CHR 0x00 \<notin> set v2" "CHR 0x00 \<notin> set v3"
  shows "fst (kvs_save_to_file t s)
       \<and> (let file = fst (snd (kvs_save_to_file t s));
               r = kvs_load_from_file eob (new_table 16) env0 file;
               t' = fst (snd r)
           in (fst r \<and> ht_size t' = 3
                 \<and> fst (ht_get t' env0 100) = Str v1
                 \<and> fst (ht_get t' env0 200) = Str v2
                 \<and> fst (ht_get t' env0 300) = Str v3)
              = (eob \<and> ucast (size t) = (3 :: 32 word)))"
proof -
  have inv: "ht_inv t" using assms(1) by (rule reachable_inv)
  have d: "distinct (map fst (ht_contents t))" by (rule ht_contents_distinct [OF inv])
  then have "distinct (ht_contents t)" by (simp add: distinct_map)
  then have "length (ht_contents t) = card (set (ht_contents t))" by (simp add: distinct_card)
  also have "\<dots> = 3" by (simp add: assms(2))
  finally obtain a b c where abc: "ht_contents t = [a, b, c]" using three_elems by blast
  have mem: "a \<in> {(100, Str v1), (200, Str v2), (300, Str v3)}"
    "b \<in> {(100, Str v1), (200, Str v2), (300, Str v3)}"
    "c \<in> {(100, Str v1), (200, Str v2), (300, Str v3)}"
    using assms(2) abc by auto
  have all: "(100, Str v1) \<in> {a, b, c}" "(200, Str v2) \<in> {a, b, c}" "(300, Str v3) \<in> {a, b, c}"
    using assms(2) abc by auto
  from mem(1) assms(3-8) obtain ka va where a: "a = (ka, Str va)" "length va \<le> 100000"
    "CHR 0x00 \<notin> set va" "ka \<in> {100, 200, 300}" by auto
  from mem(2) assms(3-8) obtain kb vb where b: "b = (kb, Str vb)" "length vb \<le> 100000"
    "CHR 0x00 \<notin> set vb" "kb \<in> {100, 200, 300}" by auto
  from mem(3) assms(3-8) obtain kc vc where c: "c = (kc, Str vc)" "length vc \<le> 100000"
    "CHR 0x00 \<notin> set vc" "kc \<in> {100, 200, 300}" by auto
  have kd: "ka \<noteq> kb" "ka \<noteq> kc" "kb \<noteq> kc" using d abc a(1) b(1) c(1) by auto
  have kn: "ka \<noteq> DELETED_KEY" "kb \<noteq> DELETED_KEY" "kc \<noteq> DELETED_KEY"
    using a(4) b(4) c(4) sample_keys by auto
  have hd: "hash_key ka mod 16 \<noteq> hash_key kb mod 16" "hash_key ka mod 16 \<noteq> hash_key kc mod 16"
    "hash_key kb mod 16 \<noteq> hash_key kc mod 16"
    using kd a(4) b(4) c(4) sample_homes by auto
  let ?T3 = "place (place (place (new_table 16) ka va) kb vb) kc vc"
  note pt = place_three [OF kn hd]
  have g: "fst (ht_get ?T3 env0 100) = Str v1" "fst (ht_get ?T3 env0 200) = Str v2"
    "fst (ht_get ?T3 env0 300) = Str v3"
    using all kd pt(4-6) unfolding a(1) b(1) c(1) by auto
  have sv: "kvs_save_to_file t s =
     (True,
      kvs_header (ucast (size t))
        @ encode_record (ka, va) @ encode_record (kb, vb) @ encode_record (kc, vc),
      kvs_clear_error s)"
    using kvs_save_bytes [OF inv, of s] a b c by (simp add: abc)
  define n where "n = unat (ucast (size t) :: 32 word)"
  have n3: "(n = 3) = (ucast (size t) = (3 :: 32 word))"
    by (simp add: n_def word_unat_eq_iff)
  note ld = load_three [OF kn hd a(2) b(2) c(2) a(3) b(3) c(3), of eob n]
  have z: "ht_size (new_table 16) = 0" by (simp add: ht_size_def new_table_def)
  have "(let r = load_entries eob n (new_table 16) env0
                   (encode_record (ka, va) @ encode_record (kb, vb) @ encode_record (kc, vc));
             t' = fst (snd r)
         in (fst r \<and> ht_size t' = 3
               \<and> fst (ht_get t' env0 100) = Str v1
               \<and> fst (ht_get t' env0 200) = Str v2
               \<and> fst (ht_get t' env0 300) = Str v3))
        = (eob \<and> n = 3)"
    unfolding ld Let_def by (simp add: pt(1-3) g z)
  then show ?thesis
    by (simp add: sv load_header Let_def n_def [symmetric] n3)
qed

theorem codec_round_trip_witness:
  "ht_create 0 env0 = (Some (new_table 16), env0)
   \<and> reachable (three_sample ''one hundred'' ''two hundred'' ''three hundred'')
   \<and> set (ht_contents (three_sample ''one hundred'' ''two hundred'' ''three hundred''))
       = {(100, Str ''one hundred''), (200, Str ''two hundred''), (300, Str ''three hundred'')}
   \<and> fst (kvs_save_to_file (three_sample ''one hundred'' ''two hundred'' ''three hundred'') env0)
   \<and> (let file = fst (snd (kvs_save_to_file
                      (three_sample ''one hundred'' ''two hundred'' ''three hundred'') env0));
           r = kvs_load_from_file True (new_table 16) env0 file;
           t' = fst (snd r)
       in fst r \<and> ht_size t' = 3
          \<and> fst (ht_get t' env0 100) = Str ''one hundred''
          \<and> fst (ht_get t' env0 200) = Str ''two hundred''
          \<and> fst (ht_get t' env0 300) = Str ''three hundred'')
   \<and> (let file = fst (snd (kvs_save_to_file
                      (three_sample ''one hundred'' ''two hundred'' ''three hundred'') env0));
           r = kvs_load_from_file False (new_table 16) env0 file;
           t' = fst (snd r)
       in \<not> fst r \<and> ht_size t' = 1
          \<and> ht_get t' env0 100 = (Str ''one hundred'', env0)
          \<and> ht_get t' env0 200 = (Null, kvs_set_error KVS_ERROR_KEY_NOT_FOUND env0)
          \<and> ht_get t' env0 300 = (Null, kvs_set_error KVS_ERROR_KEY_NOT_FOUND env0))
   \<and> reachable again_sample
   \<and> set (ht_contents again_sample)
       = {(100, Str ''one hundred''), (200, Str ''two hundred''), (300, Str ''three hundred'')}
   \<and> ht_size again_sample = 4
   \<and> (let file = fst (snd (kvs_save_to_file again_sample env0));
           r = kvs_load_from_file True (new_table 16) env0 file
       in \<not> fst r \<and> global_error (snd (snd r)) = KVS_ERROR_FILE_IO)"
proof -
  let ?t = "three_sample ''one hundred'' ''two hundred'' ''three hundred''"
  have r: "reachable ?t" by (rule three_sample_reachable)
  have c: "set (ht_contents ?t)
      = {(100, Str ''one hundred''), (200, Str ''two hundred''), (300, Str ''three hundred'')}"
    by (simp add: three_sample_contents)
  have sz: "(ucast (size ?t) :: 32 word) = 3" by (simp add: three_sample_eq)
  have good: "fst (kvs_save_to_file ?t env0)
     \<and> (let file = fst (snd (kvs_save_to_file ?t env0));
           r = kvs_load_from_file True (new_table 16) env0 file;
           t' = fst (snd r)
       in fst r \<and> ht_size t' = 3
          \<and> fst (ht_get t' env0 100) = Str ''one hundred''
          \<and> fst (ht_get t' env0 200) = Str ''two hundred''
          \<and> fst (ht_get t' env0 300) = Str ''three hundred'')"
    using codec_round_trip [OF r c, of env0 True] sz by (simp add: Let_def)
  have stop: "kvs_load_from_file False (new_table 16) env0 (fst (snd (kvs_save_to_file ?t env0)))
      = (False, place (new_table 16) 100 ''one hundred'', env0)"
    by (rule three_sample_load_stops) simp_all
  have ca: "set (ht_contents again_sample)
      = {(100, Str ''one hundred''), (200, Str ''two hundred''), (300, Str ''three hundred'')}"
    by (simp add: again_sample_contents)
  have sa: "ht_size again_sample = 4" by (simp add: again_sample_eq ht_size_def)
  have cr: "ht_create 0 env0 = (Some (new_table 16), env0)"
    by (simp add: ht_create_def alloc_def env0_def Let_def DEFAULT_CAPACITY_def
        kvs_clear_error_def kvs_set_error_def)
  show ?thesis
    using cr r c good again_sample_reachable ca sa
    by (simp add: Let_def stop place_first_only again_sample_load_fails(2,3))
qed

section \<open>A record with an oversized length\<close>

text \<open>
  C6, as stated, fails: when the record before the offending one cannot be inserted (here
  it carries the reserved key), the load fails with that record's error,
  \<open>KVS_ERROR_INVALID_PARAM\<close>, and not with \<open>KVS_ERROR_CORRUPTION\<close>.
\<close>

theorem offending_record_counterexample:
  "kvs_load_from_file True (new_table 16) env0
     (kvs_header 2 @ encode_record (DELETED_KEY, []) @ le32 1 @ le32 200000)
   = (False, new_table 16, kvs_set_error KVS_ERROR_INVALID_PARAM env0)
   \<and> global_error (kvs_set_error KVS_ERROR_INVALID_PARAM env0) \<noteq> KVS_ERROR_CORRUPTION"
proof -
  have a: "alloc env0 = (True, env0)" by (simp add: alloc_def env0_def)
  have n2: "unat (2 :: 32 word) = Suc (Suc 0)" by simp
  show ?thesis
    unfolding load_header n2
    by (simp add: load_entries_record a ht_set.simps c_str_def kvs_set_error_def
        del: load_entries.simps(2))
qed

text \<open>
  C6, amended. A stream with a valid header in which some records of at most 100000 value
  bytes are followed by a record whose declared length exceeds 100000 makes the load fail.
  The table and the process state are those that loading the earlier records alone leaves;
  if that load succeeds, the error is \<open>KVS_ERROR_CORRUPTION\<close>, otherwise it is the error of
  the earlier record that failed. Nothing from the offending record on is read or inserted:
  the result does not depend on the bytes that follow its length field.
\<close>

theorem offending_record_ends_load:
  assumes "\<forall>r\<in>set rs. length (snd r) \<le> 100000" and "length rs < unat n" and "100000 < l"
  shows "kvs_load_from_file eob t s
           (kvs_header n @ concat (map encode_record rs) @ le32 k @ le32 l @ rest) =
         (case kvs_load_from_file eob t s
                 (kvs_header (word_of_nat (length rs)) @ concat (map encode_record rs)) of
            (ok, t', s') \<Rightarrow>
              if ok then (False, t', kvs_set_error KVS_ERROR_CORRUPTION s') else (False, t', s'))"
proof -
  have "unat n < 2 ^ 32" using unsigned_less [of n] by simp
  then have "length rs < 2 ^ 32" using assms(2) by simp
  then have u: "unat (word_of_nat (length rs) :: 32 word) = length rs"
    by (simp add: unat_of_nat)
  have "unat n = length rs + Suc (unat n - Suc (length rs))" using assms(2) by simp
  then show ?thesis
    unfolding load_header u
    using load_entries_offending [OF assms(1,3), of eob "unat n - Suc (length rs)" t s k rest]
    by simp
qed

theorem offending_record_ends_load_witness:
  "kvs_load_from_file True (new_table 16) env0
     (kvs_header 3 @ concat (map encode_record [(7, ''seven'')])
        @ le32 8 @ le32 200000 @ encode_record (9, ''nine''))
   = (False,
      \<lparr>entries = (replicate 16 empty_entry)
         [2 := \<lparr>key = 7, val = Str ''seven'', occupied = True\<rparr>],
       capacity = 16, size = 1, tombstones = 0\<rparr>,
      kvs_set_error KVS_ERROR_CORRUPTION env0)"
proof -
  have a: "alloc env0 = (True, env0)" by (simp add: alloc_def env0_def)
  have c: "kvs_clear_error env0 = env0"
    by (simp add: kvs_clear_error_def kvs_set_error_def env0_def)
  have s: "ht_set True (new_table 16) env0 7 (Some ''seven'')
      = (True,
         \<lparr>entries = (replicate 16 empty_entry)
            [2 := \<lparr>key = 7, val = Str ''seven'', occupied = True\<rparr>],
          capacity = 16, size = 1, tombstones = 0\<rparr>,
         env0)"
    by (simp add: eval_simps)
  have n1: "unat (1 :: 32 word) = Suc 0" by simp
  have g: "kvs_load_from_file True (new_table 16) env0 (kvs_header 1 @ encode_record (7, ''seven''))
      = (True,
         \<lparr>entries = (replicate 16 empty_entry)
            [2 := \<lparr>key = 7, val = Str ''seven'', occupied = True\<rparr>],
          capacity = 16, size = 1, tombstones = 0\<rparr>,
         env0)"
    unfolding load_header n1
    by (simp add: load_entries_last a c s c_str_id del: load_entries.simps(2))
  from offending_record_ends_load [of "[(7, ''seven'')]" 3 200000 True "new_table 16" env0 8
      "encode_record (9, ''nine'')"]
  show ?thesis using g by simp
qed

section \<open>Deleted keys\<close>

text \<open>
  C7. In a table built through the interface, once \<^verbatim>\<open>ht_delete\<close> of a key \<open>k\<close> has succeeded,
  and whatever calls follow that do not set \<open>k\<close> again (sets and deletes of other keys,
  failed or not), \<^verbatim>\<open>ht_get\<close> of \<open>k\<close> returns \<open>Null\<close> with \<open>KVS_ERROR_KEY_NOT_FOUND\<close>, and a
  second \<^verbatim>\<open>ht_delete\<close> of \<open>k\<close> returns false with \<open>KVS_ERROR_KEY_NOT_FOUND\<close> and leaves the
  table as it is.
\<close>

theorem deleted_key_not_found:
  assumes "reachable t" and "ht_delete t s k = (True, t1, s1)"
    and "\<forall>op\<in>set ops. \<not> sets_key k op" and "run eob ops (t1, s1) = (t2, s2)"
  shows "ht_get t2 s' k = (Null, kvs_set_error KVS_ERROR_KEY_NOT_FOUND s')
       \<and> ht_delete t2 s' k = (False, t2, kvs_set_error KVS_ERROR_KEY_NOT_FOUND s')"
proof -
  have nk: "k \<noteq> DELETED_KEY" using assms(2) by (auto simp: ht_delete_def)
  have inv: "ht_inv t" using assms(1) by (rule reachable_inv)
  then have "ht_inv t1" using ht_delete_inv [of t s k] assms(2) by simp
  moreover have "absent t1 k" using inv assms(2) by (rule ht_delete_absent)
  ultimately have "absent t2 k" using run_absent [of t1 k ops eob s1] assms(3,4) by simp
  then show ?thesis using absent_not_found [of t2 k s'] nk by simp
qed

theorem deleted_key_not_found_witness:
  "ht_delete pair_sample env0 10 = (True, tomb_sample, env0)
   \<and> ht_get (fst (run True [Set 7 (Some ''seven''), Delete 42] (tomb_sample, env0))) env0 10
       = (Null, kvs_set_error KVS_ERROR_KEY_NOT_FOUND env0)
   \<and> ht_delete (fst (run True [Set 7 (Some ''seven''), Delete 42] (tomb_sample, env0))) env0 10
       = (False, fst (run True [Set 7 (Some ''seven''), Delete 42] (tomb_sample, env0)),
          kvs_set_error KVS_ERROR_KEY_NOT_FOUND env0)"
  using deleted_key_not_found [OF pair_sample_reachable tomb_sample_deleted,
      of "[Set 7 (Some ''seven''), Delete 42]" True
         "fst (run True [Set 7 (Some ''seven''), Delete 42] (tomb_sample, env0))"
         "snd (run True [Set 7 (Some ''seven''), Delete 42] (tomb_sample, env0))" env0]
    tomb_sample_deleted
  by simp

section \<open>Lookups pass over tombstones\<close>

text \<open>
  C8. In a table that satisfies the invariant \<open>ht_inv\<close>, \<^verbatim>\<open>ht_get\<close> of a key that occupies a
  slot returns that slot's value, whatever tombstones lie between the key's home slot and
  its slot. A lookup probe ends on an empty slot or on the key; it gives up (\<open>None\<close>) only
  after a full cycle, that is, when no slot of the table is empty.
\<close>

theorem lookup_passes_tombstones:
  assumes "ht_inv t" and "i < unat (capacity t)"
    and "occupied (entries t ! i)" and "key (entries t ! i) = k" and "k \<noteq> DELETED_KEY"
  shows "ht_get t s k = (val (entries t ! i), kvs_clear_error s)
       \<and> (case find_slot t k' False of
            None \<Rightarrow> (\<forall>j<unat (capacity t). occupied (entries t ! j))
          | Some j \<Rightarrow> \<not> occupied (entries t ! j) \<or> hit k' (entries t ! j))"
proof -
  have "hit k (entries t ! i)" using assms(3,4,5) by (simp add: hit_def live_def)
  then have "find_slot t k False = Some i"
    using assms(1,2) by (intro find_slot_lookup_present)
  then have g: "ht_get t s k = (val (entries t ! i), kvs_clear_error s)"
    using assms(3,4,5) by (simp add: ht_get_def)
  have c: "0 < unat (capacity t)" using assms(2) by simp
  have "\<forall>j<unat (capacity t). occupied (entries t ! j)" if "find_slot t k' False = None"
  proof (intro allI impI)
    fix j assume "j < unat (capacity t)"
    then obtain d where "d < unat (capacity t)" "slot_at t k' d = j"
      using slot_at_surj by blast
    moreover have "clear_to t k' (unat (capacity t))"
      using find_slot_lookup [of t k'] that c by (auto simp: unat_gt_0)
    ultimately show "occupied (entries t ! j)" by (auto simp: clear_to_def entry_at_def)
  qed
  moreover have "\<not> occupied (entries t ! j) \<or> hit k' (entries t ! j)"
    if "find_slot t k' False = Some j" for j
    using find_slot_lookup [of t k'] that by (auto simp: lookup_stop_def entry_at_def)
  ultimately show ?thesis using g by (simp split: option.split)
qed

theorem lookup_passes_tombstones_witness:
  "hash_key 42 mod unat (capacity tomb_sample) = 15
   \<and> occupied (entries tomb_sample ! 15) \<and> key (entries tomb_sample ! 15) = DELETED_KEY
   \<and> occupied (entries tomb_sample ! 0) \<and> key (entries tomb_sample ! 0) = 42
   \<and> ht_get tomb_sample env0 42 = (Str ''answer'', kvs_clear_error env0)"
proof -
  have "reachable tomb_sample"
    using pair_sample_reachable tomb_sample_deleted by (rule reachable.after_delete)
  then have inv: "ht_inv tomb_sample" by (rule reachable_inv)
  have e: "entries tomb_sample ! 0 = \<lparr>key = 42, val = Str ''answer'', occupied = True\<rparr>"
    "entries tomb_sample ! 15 = \<lparr>key = DELETED_KEY, val = Null, occupied = True\<rparr>"
    "capacity tomb_sample = 16"
    by (simp_all add: tomb_sample_eq)
  have h: "hash_key 42 mod 16 = 15" by (simp add: hash_key_def key_bytes_def)
  from lookup_passes_tombstones [OF inv, of 0 42 env0 42] e h
  show ?thesis by (simp add: DELETED_KEY_def)
qed

section \<open>Rejection of the reserved key\<close>

text \<open>
  C9. Called with the reserved key \<open>DELETED_KEY\<close> (the tombstone marker \<^verbatim>\<open>INT_MIN\<close>),
  \<^verbatim>\<open>ht_set\<close>, \<^verbatim>\<open>ht_get\<close> and \<^verbatim>\<open>ht_delete\<close> fail (\<open>False\<close>, respectively \<open>Null\<close>), set the error
  code \<open>KVS_ERROR_INVALID_PARAM\<close> and return the table as it was, whatever it holds.
\<close>

theorem reserved_key_rejected:
  "ht_set eob t s DELETED_KEY value = (False, t, kvs_set_error KVS_ERROR_INVALID_PARAM s)
   \<and> ht_get t s DELETED_KEY = (Null, kvs_set_error KVS_ERROR_INVALID_PARAM s)
   \<and> ht_delete t s DELETED_KEY = (False, t, kvs_set_error KVS_ERROR_INVALID_PARAM s)"
  by (simp add: ht_set.simps ht_get_def ht_delete_def split: option.split)

theorem reserved_key_rejected_witness:
  "ht_set True (new_table 16) env0 DELETED_KEY (Some ''x'')
     = (False, new_table 16, kvs_set_error KVS_ERROR_INVALID_PARAM env0)
   \<and> ht_get (new_table 16) env0 DELETED_KEY = (Null, kvs_set_error KVS_ERROR_INVALID_PARAM env0)
   \<and> ht_delete (new_table 16) env0 DELETED_KEY
     = (False, new_table 16, kvs_set_error KVS_ERROR_INVALID_PARAM env0)"
  using reserved_key_rejected [of True "new_table 16" env0 "Some ''x''"] by simp

section \<open>The bound on the value length\<close>

text \<open>
  C10. A record whose declared value length is at most 100000, so also exactly 100000, is
  not rejected: the load goes on to allocate the buffer, read the value and insert it with
  \<^verbatim>\<open>ht_set\<close>. A record whose declared length is above 100000, so from 100001 on, makes the
  load fail with \<open>KVS_ERROR_CORRUPTION\<close>, the table untouched.
\<close>

theorem value_length_bound:
  "(length v \<le> 100000 \<longrightarrow>
      kvs_load_from_file eob t s (kvs_header 1 @ encode_record (k, v)) =
        (case alloc s of
           (ok, s1) \<Rightarrow>
             if \<not> ok then (False, t, kvs_set_error KVS_ERROR_MEMORY s1)
             else
               (case ht_set eob t s1 k (Some (c_str v)) of
                  (ok', t1, s2) \<Rightarrow>
                    if \<not> ok' then (False, t1, s2) else (True, t1, kvs_clear_error s2))))
   \<and> (100000 < l \<longrightarrow>
      kvs_load_from_file eob t s (kvs_header 1 @ le32 k @ le32 l @ rest) =
        (False, t, kvs_set_error KVS_ERROR_CORRUPTION s))"
proof (intro conjI impI)
  have n1: "unat (1 :: 32 word) = Suc 0" by simp
  {
    assume "length v \<le> 100000"
    then show "kvs_load_from_file eob t s (kvs_header 1 @ encode_record (k, v)) =
        (case alloc s of
           (ok, s1) \<Rightarrow>
             if \<not> ok then (False, t, kvs_set_error KVS_ERROR_MEMORY s1)
             else
               (case ht_set eob t s1 k (Some (c_str v)) of
                  (ok', t1, s2) \<Rightarrow>
                    if \<not> ok' then (False, t1, s2) else (True, t1, kvs_clear_error s2)))"
      unfolding load_header n1 by (simp only: load_entries_last load_entries.simps(1))
  }
  {
    assume "100000 < l"
    then show "kvs_load_from_file eob t s (kvs_header 1 @ le32 k @ le32 l @ rest) =
        (False, t, kvs_set_error KVS_ERROR_CORRUPTION s)"
      unfolding load_header n1 by (rule load_entries_corrupt)
  }
qed

theorem value_length_bound_witness:
  "length (replicate 100000 CHR ''A'') = 100000
   \<and> kvs_load_from_file True (new_table 16) env0
        (kvs_header 1 @ encode_record (7, replicate 100000 CHR ''A''))
      = (True,
         \<lparr>entries = (replicate 16 empty_entry)
            [2 := \<lparr>key = 7, val = Str (replicate 100000 CHR ''A''), occupied = True\<rparr>],
          capacity = 16, size = 1, tombstones = 0\<rparr>,
         env0)
   \<and> kvs_load_from_file True (new_table 16) env0
        (kvs_header 1 @ le32 7 @ le32 100001 @ replicate 100001 CHR ''A'')
      = (False, new_table 16, kvs_set_error KVS_ERROR_CORRUPTION env0)"
proof -
  have a: "alloc env0 = (True, env0)" by (simp add: alloc_def env0_def)
  have c: "kvs_clear_error env0 = env0"
    by (simp add: kvs_clear_error_def kvs_set_error_def env0_def)
  have s: "ht_set True (new_table 16) env0 7 (Some (replicate 100000 CHR ''A''))
      = (True,
         \<lparr>entries = (replicate 16 empty_entry)
            [2 := \<lparr>key = 7, val = Str (replicate 100000 CHR ''A''), occupied = True\<rparr>],
          capacity = 16, size = 1, tombstones = 0\<rparr>,
         env0)"
    by (simp add: eval_simps)
  have z: "c_str (replicate 100000 CHR ''A'') = replicate 100000 CHR ''A''"
    by (simp add: c_str_id)
  from value_length_bound [of "replicate 100000 CHR ''A''" True "new_table 16" env0 7
      100001 "replicate 100001 CHR ''A''"]
  show ?thesis by (simp add: a c s z)
qed

end
